theory Spec2Isabelle
  imports Complex_Main "HOL-Library.Multiset"
begin

section \<open>Data model (src/types.ts)\<close>

text \<open>
  A JavaScript \<^verbatim>\<open>number\<close> that holds a coordinate or a size is a finite value or one of
  the three non-finite values. Finite doubles are rationals, so \<open>Finite\<close> carries a
  \<^typ>\<open>rat\<close>; negative zero is not told apart from zero. Timestamps are only ever
  produced by \<^verbatim>\<open>Date.now()\<close>, an integer count of milliseconds, and are modelled as
  \<^typ>\<open>int\<close>.
\<close>

datatype number = Finite rat | NaN | PosInfinity | NegInfinity

datatype Theme = Dark | Pink | Royal

datatype BlockType = Text | Image | Video

text \<open>Field \<^verbatim>\<open>x\<close>, \<^verbatim>\<open>y\<close> of \<^verbatim>\<open>Point\<close>.\<close>

record Point =
  px :: number
  py :: number

text \<open>\<^verbatim>\<open>DrawingPath\<close>: fields \<^verbatim>\<open>points\<close>, \<^verbatim>\<open>color\<close>, \<^verbatim>\<open>width\<close>.\<close>

record DrawingPath =
  points :: "Point list"
  color :: string
  path_width :: number

text \<open>
  \<^verbatim>\<open>Block\<close>: fields \<^verbatim>\<open>id\<close>, \<^verbatim>\<open>type\<close>, \<^verbatim>\<open>content\<close>, \<^verbatim>\<open>width?\<close>, \<^verbatim>\<open>height?\<close>,
  \<^verbatim>\<open>drawings?\<close>. An optional field that is absent (\<^verbatim>\<open>undefined\<close>) is \<open>None\<close>.
\<close>

record Block =
  bid :: string
  btype :: BlockType
  content :: string
  width :: "number option"
  height :: "number option"
  drawings :: "DrawingPath list option"

text \<open>
  \<^verbatim>\<open>Note\<close>: fields \<^verbatim>\<open>id\<close>, \<^verbatim>\<open>title\<close>, \<^verbatim>\<open>createdAt\<close>, \<^verbatim>\<open>updatedAt\<close>, \<^verbatim>\<open>blocks\<close>,
  \<^verbatim>\<open>isPinned\<close>, \<^verbatim>\<open>isHidden?\<close>, \<^verbatim>\<open>theme?\<close>.
\<close>

record Note =
  nid :: string
  title :: string
  createdAt :: int
  updatedAt :: int
  blocks :: "Block list"
  isPinned :: bool
  isHidden :: "bool option"
  theme :: "Theme option"

section \<open>Array primitives of the host language\<close>

text \<open>\<^verbatim>\<open>xs.findIndex(p)\<close>: the first index whose element satisfies \<open>p\<close>; JavaScript's
  \<^verbatim>\<open>-1\<close> is \<open>None\<close>.\<close>

fun findIndex :: "('a \<Rightarrow> bool) \<Rightarrow> 'a list \<Rightarrow> nat option" where
  "findIndex p [] = None"
| "findIndex p (a # as) = (if p a then Some 0 else map_option Suc (findIndex p as))"

text \<open>\<^verbatim>\<open>xs.splice(i, 1)\<close> for \<open>i \<ge> 0\<close>: removes the element at \<open>i\<close>, nothing when \<open>i\<close> is
  past the end.\<close>

definition splice_remove :: "nat \<Rightarrow> 'a list \<Rightarrow> 'a list" where
  "splice_remove i as = take i as @ drop (Suc i) as"

text \<open>\<^verbatim>\<open>xs.splice(i, 0, a)\<close> for \<open>i \<ge> 0\<close>: inserts \<open>a\<close> before index \<open>i\<close>; a start index
  past the end is clamped to the length, so the element is appended.\<close>

definition splice_insert :: "nat \<Rightarrow> 'a \<Rightarrow> 'a list \<Rightarrow> 'a list" where
  "splice_insert i a as = take i as @ a # drop i as"

section \<open>Application state and note handlers (src/App.tsx)\<close>

datatype View = Home | Edit

text \<open>The React state of \<^verbatim>\<open>App\<close> that the handlers read and write. The undo timer is
  a handle to a pending timeout; it is kept as a flag.\<close>

record App =
  a_view :: View
  a_notes :: "Note list"
  a_activeNote :: "Note option"
  a_deletedNote :: "Note option"
  a_undoTimer :: bool

text \<open>The updater that \<^verbatim>\<open>handleSaveNote\<close> passes to \<^verbatim>\<open>setNotes\<close>.\<close>

definition saveNoteUpdater :: "Note \<Rightarrow> Note list \<Rightarrow> Note list" where
  "saveNoteUpdater updatedNote prev =
     (case List.find (\<lambda>n. nid n = nid updatedNote) prev of
        Some exists \<Rightarrow> map (\<lambda>n. if nid n = nid updatedNote then updatedNote else n) prev
      | None \<Rightarrow> updatedNote # prev)"

definition handleSaveNote :: "Note \<Rightarrow> App \<Rightarrow> App" where
  "handleSaveNote updatedNote st =
     st\<lparr>a_notes := saveNoteUpdater updatedNote (a_notes st),
        a_activeNote :=
          (if map_option nid (a_activeNote st) = Some (nid updatedNote)
           then Some updatedNote else a_activeNote st)\<rparr>"

definition handleDeleteNote :: "string \<Rightarrow> App \<Rightarrow> App" where
  "handleDeleteNote noteId st =
     (case List.find (\<lambda>n. nid n = noteId) (a_notes st) of
        None \<Rightarrow> st
      | Some noteToDelete \<Rightarrow>
          (let st1 = st\<lparr>a_deletedNote := Some noteToDelete,
                        a_notes := filter (\<lambda>n. nid n \<noteq> noteId) (a_notes st)\<rparr>;
               st2 = (if map_option nid (a_activeNote st) = Some noteId
                      then st1\<lparr>a_activeNote := None, a_view := Home\<rparr> else st1)
           in st2\<lparr>a_undoTimer := True\<rparr>))"

definition handleCreateNote :: "App \<Rightarrow> App" where
  "handleCreateNote st = st\<lparr>a_activeNote := None, a_view := Edit\<rparr>"

definition handleSelectNote :: "Note \<Rightarrow> App \<Rightarrow> App" where
  "handleSelectNote note st = st\<lparr>a_activeNote := Some note, a_view := Edit\<rparr>"

text \<open>\<^verbatim>\<open>!note.isHidden\<close> is \<^verbatim>\<open>true\<close> unless the flag is \<^verbatim>\<open>true\<close>.\<close>

definition handleToggleHideNote :: "Note \<Rightarrow> App \<Rightarrow> App" where
  "handleToggleHideNote note st =
     handleSaveNote (note\<lparr>isHidden := Some (isHidden note \<noteq> Some True)\<rparr>) st"

definition handleTogglePinNote :: "Note \<Rightarrow> App \<Rightarrow> App" where
  "handleTogglePinNote note st = handleSaveNote (note\<lparr>isPinned := \<not> isPinned note\<rparr>) st"

section \<open>Editor state and block operations (Editor component)\<close>

text \<open>The React state and refs of \<^verbatim>\<open>Editor\<close>: \<^verbatim>\<open>blocks\<close>, \<^verbatim>\<open>title\<close>, \<^verbatim>\<open>isHidden\<close>,
  \<^verbatim>\<open>isPinned\<close>, \<^verbatim>\<open>deletedBlock\<close> (the removed block with its index), and the refs
  \<^verbatim>\<open>dragItem\<close> and \<^verbatim>\<open>dragOverItem\<close>.\<close>

record Editor =
  e_blocks :: "Block list"
  e_title :: string
  e_isHidden :: bool
  e_isPinned :: bool
  e_deletedBlock :: "(Block \<times> nat) option"
  e_dragItem :: "nat option"
  e_dragOverItem :: "nat option"

definition updateBlock :: "string \<Rightarrow> string \<Rightarrow> Editor \<Rightarrow> Editor" where
  "updateBlock i c st =
     st\<lparr>e_blocks := map (\<lambda>b. if bid b = i then b\<lparr>content := c\<rparr> else b) (e_blocks st)\<rparr>"

definition updateBlockDrawings :: "string \<Rightarrow> DrawingPath list \<Rightarrow> Editor \<Rightarrow> Editor" where
  "updateBlockDrawings i ds st =
     st\<lparr>e_blocks := map (\<lambda>b. if bid b = i then b\<lparr>drawings := Some ds\<rparr> else b) (e_blocks st)\<rparr>"

definition deleteBlock :: "string \<Rightarrow> Editor \<Rightarrow> Editor" where
  "deleteBlock i st =
     (case findIndex (\<lambda>b. bid b = i) (e_blocks st) of
        None \<Rightarrow> st
      | Some index \<Rightarrow>
          st\<lparr>e_deletedBlock := Some (e_blocks st ! index, index),
             e_blocks := filter (\<lambda>b. bid b \<noteq> i) (e_blocks st)\<rparr>)"

text \<open>The callback that \<^verbatim>\<open>deleteBlock\<close> schedules for 4000 ms later.\<close>

definition expireDeletedBlock :: "string \<Rightarrow> Editor \<Rightarrow> Editor" where
  "expireDeletedBlock i st =
     st\<lparr>e_deletedBlock :=
          (case e_deletedBlock st of
             None \<Rightarrow> None
           | Some (b, index) \<Rightarrow> if bid b = i then None else Some (b, index))\<rparr>"

definition restoreBlock :: "Editor \<Rightarrow> Editor" where
  "restoreBlock st =
     (case e_deletedBlock st of
        None \<Rightarrow> st
      | Some (b, index) \<Rightarrow>
          st\<lparr>e_blocks := splice_insert index b (e_blocks st), e_deletedBlock := None\<rparr>)"

subsection \<open>Drag reordering\<close>

definition handleDragStart :: "nat \<Rightarrow> Editor \<Rightarrow> Editor" where
  "handleDragStart position st = st\<lparr>e_dragItem := Some position\<rparr>"

text \<open>
  \<^verbatim>\<open>handleDragEnter\<close>. When the tracked index is past the end of the list,
  \<^verbatim>\<open>newBlocks[dragIndex]\<close> is \<^verbatim>\<open>undefined\<close> and the source inserts that value into the
  array; the array then no longer is a list of blocks, which is the result \<open>None\<close>.
\<close>

definition handleDragEnter :: "nat \<Rightarrow> Editor \<Rightarrow> Editor option" where
  "handleDragEnter position st =
     (case e_dragItem st of
        None \<Rightarrow> Some st
      | Some dragIndex \<Rightarrow>
          (let st1 = st\<lparr>e_dragOverItem := Some position\<rparr>; hoverIndex = position in
           if dragIndex = hoverIndex then Some st1
           else if dragIndex < length (e_blocks st) then
             (let draggedBlock = e_blocks st ! dragIndex;
                  newBlocks = splice_insert hoverIndex draggedBlock
                                (splice_remove dragIndex (e_blocks st))
              in Some (st1\<lparr>e_blocks := newBlocks, e_dragItem := Some hoverIndex\<rparr>))
           else None))"

definition handleDragEnd :: "Editor \<Rightarrow> Editor" where
  "handleDragEnd st = st\<lparr>e_dragItem := None, e_dragOverItem := None\<rparr>"

text \<open>A drag gesture: drag-start at a source index, then one drag-enter per target index,
  in the order of the events.\<close>

fun dragEnters :: "nat list \<Rightarrow> Editor \<Rightarrow> Editor option" where
  "dragEnters [] st = Some st"
| "dragEnters (j # js) st =
     (case handleDragEnter j st of None \<Rightarrow> None | Some st' \<Rightarrow> dragEnters js st')"

definition dragGesture :: "nat \<Rightarrow> nat list \<Rightarrow> Editor \<Rightarrow> Editor option" where
  "dragGesture i js st = dragEnters js (handleDragStart i st)"

text \<open>
  The specification's reading of the gesture: \<open>moveElement\<close> splices the element out at
  \<open>from\<close> and re-inserts it at \<open>to\<close>; \<open>dragFold\<close> is the left fold of these moves over the
  targets, carrying the list and the tracked source index, a target equal to the tracked
  index changing nothing.
\<close>

definition moveElement :: "'a list \<Rightarrow> nat \<Rightarrow> nat \<Rightarrow> 'a list" where
  "moveElement as from to = splice_insert to (as ! from) (splice_remove from as)"

definition dragFold :: "'a list \<Rightarrow> nat \<Rightarrow> nat list \<Rightarrow> 'a list \<times> nat" where
  "dragFold as i js =
     foldl (\<lambda>(bs, s) t. if t = s then (bs, s) else (moveElement bs s t, t)) (as, i) js"

subsection \<open>Auto-save\<close>

text \<open>The initial editor state, from the \<^verbatim>\<open>useState\<close> initialisers: the fields of the
  note being edited, or the defaults when there is none or the field is falsy.\<close>

definition openEditor :: "Note option \<Rightarrow> Editor" where
  "openEditor note =
     \<lparr>e_blocks = (case note of None \<Rightarrow> [] | Some n \<Rightarrow> blocks n),
      e_title = (case note of None \<Rightarrow> [] | Some n \<Rightarrow> title n),
      e_isHidden = (case note of None \<Rightarrow> False | Some n \<Rightarrow> isHidden n = Some True),
      e_isPinned = (case note of None \<Rightarrow> False | Some n \<Rightarrow> isPinned n),
      e_deletedBlock = None, e_dragItem = None, e_dragOverItem = None\<rparr>"

text \<open>
  The callback of the auto-save effect, run 800 ms after the last tracked change. Its
  inputs beside the editor state are the \<^verbatim>\<open>note\<close> prop, the current theme, the value
  \<^verbatim>\<open>generateId()\<close> returns if called, and the values of the two \<^verbatim>\<open>Date.now()\<close> calls (for
  \<^verbatim>\<open>createdAt\<close>, if called, and for \<^verbatim>\<open>updatedAt\<close>). The result is the note handed to
  \<^verbatim>\<open>onSave\<close>, or \<open>None\<close> when the guard for empty new notes returns early. The operator
  \<^verbatim>\<open>||\<close> takes its right operand when the left one is falsy: \<^verbatim>\<open>undefined\<close>, the empty
  string, or the number 0.
\<close>

definition autoSave :: "Note option \<Rightarrow> Theme \<Rightarrow> string \<Rightarrow> int \<Rightarrow> int \<Rightarrow> Editor \<Rightarrow> Note option" where
  "autoSave note currentTheme freshId now1 now2 st =
     (if e_blocks st = [] \<and> e_title st = [] \<and> note = None then None
      else Some
        \<lparr>nid = (case note of None \<Rightarrow> freshId
                | Some n \<Rightarrow> if nid n \<noteq> [] then nid n else freshId),
         title = e_title st,
         createdAt = (case note of None \<Rightarrow> now1
                      | Some n \<Rightarrow> if createdAt n \<noteq> 0 then createdAt n else now1),
         updatedAt = now2,
         blocks = e_blocks st,
         isPinned = e_isPinned st,
         isHidden = Some (e_isHidden st),
         theme = Some currentTheme\<rparr>)"

text \<open>
  \<^verbatim>\<open>App\<close> renders the editor with \<^verbatim>\<open>note={activeNote}\<close> and
  \<^verbatim>\<open>onSave={handleSaveNote}\<close>. When the auto-save timer fires, the callback above runs on
  the active note and its result, if any, goes through the save handler.
\<close>

definition autoSaveFires :: "Theme \<Rightarrow> string \<Rightarrow> int \<Rightarrow> int \<Rightarrow> Editor \<Rightarrow> App \<Rightarrow> App" where
  "autoSaveFires currentTheme freshId now1 now2 ed st =
     (case autoSave (a_activeNote st) currentTheme freshId now1 now2 ed of
        None \<Rightarrow> st
      | Some updatedNote \<Rightarrow> handleSaveNote updatedNote st)"

text \<open>
  What every note that the application stores satisfies: its id came from
  \<^verbatim>\<open>generateId()\<close>, which ends in the base-36 digits of the clock and so is not empty, and
  its \<^verbatim>\<open>createdAt\<close> came from \<^verbatim>\<open>Date.now()\<close>, which is not 0.
\<close>

definition persisted :: "Note \<Rightarrow> bool" where
  "persisted n \<longleftrightarrow> nid n \<noteq> [] \<and> createdAt n \<noteq> 0"

section \<open>Drawing canvas: stroke capture (DrawingCanvas component)\<close>

datatype Tool = Pen | Eraser

definition NEON_COLORS :: "string list" where
  "NEON_COLORS = [''#22d3ee'', ''#e879f9'', ''#a78bfa'', ''#fb7185'', ''#facc15'', ''#ffffff'']"

record Canvas =
  c_paths :: "DrawingPath list"
  c_isDrawing :: bool
  c_currentPoints :: "Point list"
  c_selectedColor :: string
  c_tool :: Tool
  c_brushSize :: number

definition openCanvas :: "DrawingPath list \<Rightarrow> Canvas" where
  "openCanvas initialPaths =
     \<lparr>c_paths = initialPaths, c_isDrawing = False, c_currentPoints = [],
      c_selectedColor = hd NEON_COLORS, c_tool = Pen, c_brushSize = Finite 3\<rparr>"

text \<open>\<^verbatim>\<open>startDrawing\<close>: \<open>onButton\<close> tells whether the event target is a button; \<open>point\<close> is
  the value of \<^verbatim>\<open>getPoint(e)\<close>.\<close>

definition startDrawing :: "bool \<Rightarrow> Point \<Rightarrow> Canvas \<Rightarrow> Canvas" where
  "startDrawing onButton point st =
     (if onButton then st else st\<lparr>c_isDrawing := True, c_currentPoints := [point]\<rparr>)"

definition draw :: "Point \<Rightarrow> Canvas \<Rightarrow> Canvas" where
  "draw point st =
     (if \<not> c_isDrawing st then st
      else st\<lparr>c_currentPoints := c_currentPoints st @ [point]\<rparr>)"

definition stopDrawing :: "Canvas \<Rightarrow> Canvas" where
  "stopDrawing st =
     (if \<not> c_isDrawing st then st
      else st\<lparr>c_isDrawing := False,
              c_paths :=
                (if length (c_currentPoints st) > 1
                 then c_paths st @
                   [\<lparr>points = c_currentPoints st,
                     color = (if c_tool st = Eraser then ''eraser'' else c_selectedColor st),
                     path_width = c_brushSize st\<rparr>]
                 else c_paths st),
              c_currentPoints := []\<rparr>)"

section \<open>List view: filter and sort (src/components/Home.tsx)\<close>

subsection \<open>String primitives of the host language\<close>

text \<open>
  \<^verbatim>\<open>s.trim()\<close> removes the white space at both ends of \<open>s\<close>. Which characters are white
  space is the platform's table, the parameter \<open>isWhiteSpace\<close>.
\<close>

definition trim :: "(char \<Rightarrow> bool) \<Rightarrow> string \<Rightarrow> string" where
  "trim isWhiteSpace s = rev (dropWhile isWhiteSpace (rev (dropWhile isWhiteSpace s)))"

fun startsWith :: "string \<Rightarrow> string \<Rightarrow> bool" where
  "startsWith s [] = True"
| "startsWith [] (q # qs) = False"
| "startsWith (c # cs) (q # qs) = (c = q \<and> startsWith cs qs)"

text \<open>\<^verbatim>\<open>s.includes(q)\<close>: \<open>q\<close> occurs in \<open>s\<close> at some position.\<close>

fun includes_str :: "string \<Rightarrow> string \<Rightarrow> bool" where
  "includes_str [] q = (q = [])"
| "includes_str (c # cs) q = (startsWith (c # cs) q \<or> includes_str cs q)"

subsection \<open>The filter\<close>

text \<open>
  \<^verbatim>\<open>filteredNotes\<close>. The lower-casing of the platform, \<^verbatim>\<open>String.prototype.toLowerCase\<close>,
  is the parameter \<open>toLowerCase\<close>. A value is kept by \<^verbatim>\<open>Array.prototype.filter\<close> when the
  callback's result is truthy; \<^verbatim>\<open>n.isHidden\<close> is truthy exactly when it is \<^verbatim>\<open>true\<close>, and a
  string is truthy exactly when it is not empty.
\<close>

definition filteredNotes ::
  "(string \<Rightarrow> string) \<Rightarrow> (char \<Rightarrow> bool) \<Rightarrow> Note list \<Rightarrow> bool \<Rightarrow> string \<Rightarrow> Note list" where
  "filteredNotes toLowerCase isWhiteSpace notes showHidden searchQuery =
     filter (\<lambda>n.
       let matchesVisibility =
             (if showHidden then isHidden n = Some True else isHidden n \<noteq> Some True);
           matchesSearch =
             (if trim isWhiteSpace searchQuery \<noteq> [] then
                (let query = toLowerCase searchQuery in
                 includes_str (toLowerCase (title n)) query \<or>
                 list_ex (\<lambda>b. btype b = Text \<and> includes_str (toLowerCase (content b)) query)
                   (blocks n))
              else True)
       in matchesVisibility \<and> matchesSearch) notes"

text \<open>Lower-casing and white space on ASCII text, for running the filter on examples.\<close>

definition asciiLowerChar :: "char \<Rightarrow> char" where
  "asciiLowerChar c =
     (let k = (of_char c :: nat) in if 65 \<le> k \<and> k \<le> 90 then char_of (k + 32) else c)"

definition asciiLower :: "string \<Rightarrow> string" where
  "asciiLower s = map asciiLowerChar s"

definition asciiSpace :: "char \<Rightarrow> bool" where
  "asciiSpace c \<longleftrightarrow> (of_char c :: nat) \<in> {9, 10, 11, 12, 13, 32}"

subsection \<open>The sort\<close>

text \<open>The comparator that \<^verbatim>\<open>sortedNotes\<close> passes to \<^verbatim>\<open>sort\<close>.\<close>

definition compareNotes :: "Note \<Rightarrow> Note \<Rightarrow> int" where
  "compareNotes a b =
     (if isPinned a \<noteq> isPinned b then (if isPinned a then - 1 else 1)
      else updatedAt b - updatedAt a)"

text \<open>
  \<^verbatim>\<open>Array.prototype.sort(cmp)\<close> is a stable sort: \<open>a\<close> comes before \<open>b\<close> when
  \<open>cmp a b < 0\<close>, after it when \<open>cmp a b > 0\<close>, and elements that compare equal keep
  their input order. It is modelled by stable insertion: an element is placed before the
  first later element that it does not have to follow.
\<close>

fun insertBy :: "('a \<Rightarrow> 'a \<Rightarrow> int) \<Rightarrow> 'a \<Rightarrow> 'a list \<Rightarrow> 'a list" where
  "insertBy cmp a [] = [a]"
| "insertBy cmp a (b # bs) = (if cmp a b \<le> 0 then a # b # bs else b # insertBy cmp a bs)"

definition sortBy :: "('a \<Rightarrow> 'a \<Rightarrow> int) \<Rightarrow> 'a list \<Rightarrow> 'a list" where
  "sortBy cmp as = foldr (insertBy cmp) as []"

definition sortedNotes :: "Note list \<Rightarrow> Note list" where
  "sortedNotes filtered = sortBy compareNotes filtered"

section \<open>Drawing canvas: rendering (DrawingCanvas component)\<close>

text \<open>
  The value of one pixel of the canvas bitmap: colour channels, premultiplied by the
  coverage, and the coverage \<open>alpha\<close>, each between 0 and 1.
\<close>

record RGBA =
  red :: rat
  green :: rat
  blue :: rat
  alpha :: rat

definition transparent :: RGBA where
  "transparent = \<lparr>red = 0, green = 0, blue = 0, alpha = 0\<rparr>"

datatype CompositeOp = SourceOver | DestinationOut

text \<open>
  The two compositing rules of the canvas that the renderer selects, for a source pixel
  \<open>s\<close> drawn onto a destination pixel \<open>d\<close>: \<^verbatim>\<open>source-over\<close> puts the source on top of
  the destination; \<^verbatim>\<open>destination-out\<close> keeps the destination where the source does not
  cover it.
\<close>

definition composite :: "CompositeOp \<Rightarrow> RGBA \<Rightarrow> RGBA \<Rightarrow> RGBA" where
  "composite op s d =
     (case op of
        SourceOver \<Rightarrow>
          \<lparr>red = red s + (1 - alpha s) * red d, green = green s + (1 - alpha s) * green d,
           blue = blue s + (1 - alpha s) * blue d, alpha = alpha s + (1 - alpha s) * alpha d\<rparr>
      | DestinationOut \<Rightarrow>
          \<lparr>red = (1 - alpha s) * red d, green = (1 - alpha s) * green d,
           blue = (1 - alpha s) * blue d, alpha = (1 - alpha s) * alpha d\<rparr>)"

text \<open>The drawing state of the 2D context that the renderer sets.\<close>

record Settings =
  globalCompositeOperation :: CompositeOp
  lineWidth :: number
  strokeStyle :: string
  shadowBlur :: number
  shadowColor :: string
  lineCap :: string
  lineJoin :: string

type_synonym pixel = "int \<times> int"
type_synonym bitmap = "pixel \<Rightarrow> RGBA"

text \<open>\<^verbatim>\<open>path.width * 4\<close> on a JavaScript number.\<close>

fun times4 :: "number \<Rightarrow> number" where
  "times4 (Finite r) = Finite (4 * r)"
| "times4 n = n"

text \<open>
  \<^verbatim>\<open>ctx.stroke()\<close> of the polyline through \<open>pts\<close>: the platform rasterises the stroke
  under the current settings into a source image, the parameter \<open>raster\<close>, and composites
  it onto the bitmap with the current operation.
\<close>

definition stroke ::
  "(Settings \<Rightarrow> Point list \<Rightarrow> bitmap) \<Rightarrow> Point list \<Rightarrow> Settings \<times> bitmap \<Rightarrow> Settings \<times> bitmap" where
  "stroke raster pts ctx =
     (fst ctx,
      \<lambda>p. composite (globalCompositeOperation (fst ctx)) (raster (fst ctx) pts p) (snd ctx p))"

text \<open>The body of the \<^verbatim>\<open>paths.forEach\<close> loop of \<^verbatim>\<open>renderCanvas\<close>.\<close>

definition renderPath ::
  "(Settings \<Rightarrow> Point list \<Rightarrow> bitmap) \<Rightarrow> Settings \<times> bitmap \<Rightarrow> DrawingPath \<Rightarrow> Settings \<times> bitmap" where
  "renderPath raster ctx path =
     (if length (points path) < 2 then ctx
      else
        (let g = fst ctx;
             g1 = (if color path = ''eraser''
                   then g\<lparr>globalCompositeOperation := DestinationOut,
                          lineWidth := times4 (path_width path)\<rparr>
                   else g\<lparr>globalCompositeOperation := SourceOver,
                          strokeStyle := color path,
                          shadowBlur := Finite 8,
                          shadowColor := color path,
                          lineWidth := path_width path\<rparr>);
             ctx2 = stroke raster (points path) (g1, snd ctx)
         in ((fst ctx2)\<lparr>shadowBlur := Finite 0, globalCompositeOperation := SourceOver\<rparr>,
             snd ctx2)))"

definition renderCanvas ::
  "(Settings \<Rightarrow> Point list \<Rightarrow> bitmap) \<Rightarrow> Settings \<times> bitmap \<Rightarrow> DrawingPath list \<Rightarrow> Settings \<times> bitmap" where
  "renderCanvas raster ctx paths =
     foldl (renderPath raster)
       ((fst ctx)\<lparr>lineCap := ''round'', lineJoin := ''round''\<rparr>, \<lambda>p. transparent) paths"

text \<open>The settings under which the renderer strokes a pen path, whatever came before.\<close>

definition penSettings :: "DrawingPath \<Rightarrow> Settings" where
  "penSettings path =
     \<lparr>globalCompositeOperation = SourceOver, lineWidth = path_width path,
      strokeStyle = color path, shadowBlur = Finite 8, shadowColor = color path,
      lineCap = ''round'', lineJoin = ''round''\<rparr>"

text \<open>A path leaves a pixel alone when its source image is transparent there under any
  settings.\<close>

definition untouched :: "(Settings \<Rightarrow> Point list \<Rightarrow> bitmap) \<Rightarrow> DrawingPath \<Rightarrow> pixel \<Rightarrow> bool" where
  "untouched raster path p \<longleftrightarrow> (\<forall>g. raster g (points path) p = transparent)"

section \<open>Persistence: the JSON document (src/App.tsx)\<close>

text \<open>
  The text that \<^verbatim>\<open>JSON.stringify\<close> writes is the text of one JSON value, and
  \<^verbatim>\<open>JSON.parse\<close> of that text gives the value back. The model works on the JSON value.
  An object is its list of members in the order of the text; reading a key takes the last
  member with that key, as \<^verbatim>\<open>JSON.parse\<close> does.
\<close>

datatype json =
  JNull
| JBool bool
| JNumber rat
| JString string
| JArray "json list"
| JObject "(string \<times> json) list"

subsection \<open>What \<^verbatim>\<open>JSON.stringify\<close> writes for a note collection\<close>

text \<open>A finite number is written as a number, a non-finite one as \<^verbatim>\<open>null\<close>.\<close>

fun numberJson :: "number \<Rightarrow> json" where
  "numberJson (Finite r) = JNumber r"
| "numberJson n = JNull"

text \<open>A property whose value is \<^verbatim>\<open>undefined\<close> is left out of the object.\<close>

definition optionalMember :: "string \<Rightarrow> ('a \<Rightarrow> json) \<Rightarrow> 'a option \<Rightarrow> (string \<times> json) list" where
  "optionalMember key f v = (case v of None \<Rightarrow> [] | Some a \<Rightarrow> [(key, f a)])"

definition pointJson :: "Point \<Rightarrow> json" where
  "pointJson p = JObject [(''x'', numberJson (px p)), (''y'', numberJson (py p))]"

definition pathJson :: "DrawingPath \<Rightarrow> json" where
  "pathJson d =
     JObject [(''points'', JArray (map pointJson (points d))),
              (''color'', JString (color d)),
              (''width'', numberJson (path_width d))]"

fun blockTypeJson :: "BlockType \<Rightarrow> json" where
  "blockTypeJson Text = JString ''text''"
| "blockTypeJson Image = JString ''image''"
| "blockTypeJson Video = JString ''video''"

fun themeJson :: "Theme \<Rightarrow> json" where
  "themeJson Dark = JString ''dark''"
| "themeJson Pink = JString ''pink''"
| "themeJson Royal = JString ''royal''"

definition blockJson :: "Block \<Rightarrow> json" where
  "blockJson b =
     JObject ([(''id'', JString (bid b)),
               (''type'', blockTypeJson (btype b)),
               (''content'', JString (content b))]
              @ optionalMember ''width'' numberJson (width b)
              @ optionalMember ''height'' numberJson (height b)
              @ optionalMember ''drawings'' (\<lambda>ds. JArray (map pathJson ds)) (drawings b))"

definition noteJson :: "Note \<Rightarrow> json" where
  "noteJson n =
     JObject ([(''id'', JString (nid n)),
               (''title'', JString (title n)),
               (''createdAt'', JNumber (of_int (createdAt n))),
               (''updatedAt'', JNumber (of_int (updatedAt n))),
               (''blocks'', JArray (map blockJson (blocks n))),
               (''isPinned'', JBool (isPinned n))]
              @ optionalMember ''isHidden'' JBool (isHidden n)
              @ optionalMember ''theme'' themeJson (theme n))"

definition stringifyNotes :: "Note list \<Rightarrow> json" where
  "stringifyNotes notes = JArray (map noteJson notes)"

subsection \<open>Reading the parsed value as a note collection\<close>

text \<open>
  \<^verbatim>\<open>JSON.parse\<close> returns an untyped value that the application uses as \<^verbatim>\<open>Note[]\<close>. The
  readers below give the notes that value is, field by field, and \<open>None\<close> when the value
  is no note collection: a member is missing or holds a value of another type.
\<close>

definition member :: "string \<Rightarrow> (string \<times> json) list \<Rightarrow> json option" where
  "member key kvs = map_of (rev kvs) key"

fun asNumber :: "json \<Rightarrow> number option" where
  "asNumber (JNumber r) = Some (Finite r)"
| "asNumber j = None"

fun asInt :: "json \<Rightarrow> int option" where
  "asInt (JNumber r) = (if of_int \<lfloor>r\<rfloor> = r then Some \<lfloor>r\<rfloor> else None)"
| "asInt j = None"

fun asString :: "json \<Rightarrow> string option" where
  "asString (JString s) = Some s"
| "asString j = None"

fun asBool :: "json \<Rightarrow> bool option" where
  "asBool (JBool b) = Some b"
| "asBool j = None"

fun asArray :: "(json \<Rightarrow> 'a option) \<Rightarrow> json \<Rightarrow> 'a list option" where
  "asArray f (JArray js) = those (map f js)"
| "asArray f j = None"

fun asBlockType :: "json \<Rightarrow> BlockType option" where
  "asBlockType j =
     (if j = JString ''text'' then Some Text
      else if j = JString ''image'' then Some Image
      else if j = JString ''video'' then Some Video
      else None)"

fun asTheme :: "json \<Rightarrow> Theme option" where
  "asTheme j =
     (if j = JString ''dark'' then Some Dark
      else if j = JString ''pink'' then Some Pink
      else if j = JString ''royal'' then Some Royal
      else None)"

definition required :: "string \<Rightarrow> (json \<Rightarrow> 'a option) \<Rightarrow> (string \<times> json) list \<Rightarrow> 'a option" where
  "required key f kvs = Option.bind (member key kvs) f"

definition optional :: "string \<Rightarrow> (json \<Rightarrow> 'a option) \<Rightarrow> (string \<times> json) list \<Rightarrow> 'a option option" where
  "optional key f kvs =
     (case member key kvs of None \<Rightarrow> Some None | Some j \<Rightarrow> map_option Some (f j))"

fun asPoint :: "json \<Rightarrow> Point option" where
  "asPoint (JObject kvs) =
     Option.bind (required ''x'' asNumber kvs) (\<lambda>x.
     Option.bind (required ''y'' asNumber kvs) (\<lambda>y.
     Some \<lparr>px = x, py = y\<rparr>))"
| "asPoint j = None"

fun asPath :: "json \<Rightarrow> DrawingPath option" where
  "asPath (JObject kvs) =
     Option.bind (required ''points'' (asArray asPoint) kvs) (\<lambda>ps.
     Option.bind (required ''color'' asString kvs) (\<lambda>c.
     Option.bind (required ''width'' asNumber kvs) (\<lambda>w.
     Some \<lparr>points = ps, color = c, path_width = w\<rparr>)))"
| "asPath j = None"

fun asBlock :: "json \<Rightarrow> Block option" where
  "asBlock (JObject kvs) =
     Option.bind (required ''id'' asString kvs) (\<lambda>i.
     Option.bind (required ''type'' asBlockType kvs) (\<lambda>t.
     Option.bind (required ''content'' asString kvs) (\<lambda>c.
     Option.bind (optional ''width'' asNumber kvs) (\<lambda>w.
     Option.bind (optional ''height'' asNumber kvs) (\<lambda>h.
     Option.bind (optional ''drawings'' (asArray asPath) kvs) (\<lambda>ds.
     Some \<lparr>bid = i, btype = t, content = c, width = w, height = h, drawings = ds\<rparr>))))))"
| "asBlock j = None"

fun asNote :: "json \<Rightarrow> Note option" where
  "asNote (JObject kvs) =
     Option.bind (required ''id'' asString kvs) (\<lambda>i.
     Option.bind (required ''title'' asString kvs) (\<lambda>t.
     Option.bind (required ''createdAt'' asInt kvs) (\<lambda>c.
     Option.bind (required ''updatedAt'' asInt kvs) (\<lambda>u.
     Option.bind (required ''blocks'' (asArray asBlock) kvs) (\<lambda>bs.
     Option.bind (required ''isPinned'' asBool kvs) (\<lambda>p.
     Option.bind (optional ''isHidden'' asBool kvs) (\<lambda>h.
     Option.bind (optional ''theme'' asTheme kvs) (\<lambda>th.
     Some \<lparr>nid = i, title = t, createdAt = c, updatedAt = u, blocks = bs, isPinned = p,
           isHidden = h, theme = th\<rparr>))))))))"
| "asNote j = None"

definition parseNotes :: "json \<Rightarrow> Note list option" where
  "parseNotes j = asArray asNote j"

subsection \<open>The two stores, the save effect and the load effect\<close>

text \<open>A stored text is the JSON text of a value, or some other text, which
  \<^verbatim>\<open>JSON.parse\<close> rejects. In a condition a text counts as true when it is not empty; a
  JSON text is never empty.\<close>

datatype document = JsonText json | OtherText string

fun truthy :: "document \<Rightarrow> bool" where
  "truthy (JsonText j) = True"
| "truthy (OtherText s) = (s \<noteq> [])"

fun JSON_parse :: "document \<Rightarrow> json option" where
  "JSON_parse (JsonText j) = Some j"
| "JSON_parse (OtherText s) = None"

text \<open>The file \<^verbatim>\<open>frame_notes_db.json\<close> (\<open>None\<close> when reading it fails) and the
  local-storage item \<^verbatim>\<open>frame_notes_data\<close> (\<open>None\<close> when there is none).\<close>

record Stores =
  fileData :: "document option"
  localData :: "document option"

text \<open>The save effect, run on every change of \<^verbatim>\<open>notes\<close>. \<open>isNative\<close> is
  \<^verbatim>\<open>Capacitor.isNativePlatform()\<close>; \<open>writeOk\<close> tells whether \<^verbatim>\<open>Filesystem.writeFile\<close>
  succeeds (a failure is caught and logged).\<close>

definition persistData :: "bool \<Rightarrow> bool \<Rightarrow> Note list \<Rightarrow> Stores \<Rightarrow> Stores" where
  "persistData isNative writeOk notes st =
     (let st1 = st\<lparr>localData := Some (JsonText (stringifyNotes notes))\<rparr>
      in if isNative \<and> writeOk then st1\<lparr>fileData := Some (JsonText (stringifyNotes notes))\<rparr>
         else st1)"

text \<open>The load effect. The result is the \<^verbatim>\<open>notes\<close> state after it: the initial empty
  list when nothing is loaded, the parsed collection otherwise (\<open>None\<close> when the parsed
  value is no note collection).\<close>

definition loadData :: "bool \<Rightarrow> Stores \<Rightarrow> Note list option" where
  "loadData isNative st =
     (let fromFile =
            (if isNative then
               (case fileData st of
                  None \<Rightarrow> None
                | Some d \<Rightarrow> if truthy d then JSON_parse d else None)
             else None)
      in case fromFile of
           Some j \<Rightarrow> parseNotes j
         | None \<Rightarrow>
             (case localData st of
                None \<Rightarrow> Some []
              | Some savedNotes \<Rightarrow>
                  if truthy savedNotes then
                    (case JSON_parse savedNotes of None \<Rightarrow> Some [] | Some j \<Rightarrow> parseNotes j)
                  else Some []))"

text \<open>A collection is valid when every number in it is finite.\<close>

fun finite_number :: "number \<Rightarrow> bool" where
  "finite_number (Finite r) = True"
| "finite_number n = False"

definition validPoint :: "Point \<Rightarrow> bool" where
  "validPoint p \<longleftrightarrow> finite_number (px p) \<and> finite_number (py p)"

definition validPath :: "DrawingPath \<Rightarrow> bool" where
  "validPath d \<longleftrightarrow> list_all validPoint (points d) \<and> finite_number (path_width d)"

definition validBlock :: "Block \<Rightarrow> bool" where
  "validBlock b \<longleftrightarrow>
     (case width b of None \<Rightarrow> True | Some w \<Rightarrow> finite_number w) \<and>
     (case height b of None \<Rightarrow> True | Some h \<Rightarrow> finite_number h) \<and>
     (case drawings b of None \<Rightarrow> True | Some ds \<Rightarrow> list_all validPath ds)"

definition validNote :: "Note \<Rightarrow> bool" where
  "validNote n \<longleftrightarrow> list_all validBlock (blocks n)"

section \<open>Sample data\<close>

definition textBlock :: "string \<Rightarrow> string \<Rightarrow> Block" where
  "textBlock i c =
     \<lparr>bid = i, btype = Text, content = c, width = None, height = None, drawings = Some []\<rparr>"

definition sampleNote :: "string \<Rightarrow> string \<Rightarrow> int \<Rightarrow> bool \<Rightarrow> Note" where
  "sampleNote i t u p =
     \<lparr>nid = i, title = t, createdAt = 1, updatedAt = u, blocks = [textBlock ''b'' t],
      isPinned = p, isHidden = None, theme = Some Dark\<rparr>"

definition sampleApp :: "Note list \<Rightarrow> App" where
  "sampleApp ns =
     \<lparr>a_view = Home, a_notes = ns, a_activeNote = None, a_deletedNote = None,
      a_undoTimer = False\<rparr>"

definition sampleEditor :: "Block list \<Rightarrow> Editor" where
  "sampleEditor bs =
     \<lparr>e_blocks = bs, e_title = ''t'', e_isHidden = False, e_isPinned = False,
      e_deletedBlock = None, e_dragItem = None, e_dragOverItem = None\<rparr>"

text \<open>A rasteriser and a context for running the renderer on examples: a stroke covers,
  fully, the pixels that hold its points, in white for \<open>''#ffffff''\<close> and in red
  otherwise.\<close>

definition pixelOf :: "Point \<Rightarrow> pixel" where
  "pixelOf pt =
     (case (px pt, py pt) of (Finite a, Finite b) \<Rightarrow> (\<lfloor>a\<rfloor>, \<lfloor>b\<rfloor>) | _ \<Rightarrow> (0, 0))"

definition sampleRaster :: "Settings \<Rightarrow> Point list \<Rightarrow> bitmap" where
  "sampleRaster g pts p =
     (if p \<in> pixelOf ` set pts then
        (if strokeStyle g = ''#ffffff''
         then \<lparr>red = 1, green = 1, blue = 1, alpha = 1\<rparr>
         else \<lparr>red = 1, green = 0, blue = 0, alpha = 1\<rparr>)
      else transparent)"

definition sampleContext :: "Settings \<times> bitmap" where
  "sampleContext =
     (\<lparr>globalCompositeOperation = SourceOver, lineWidth = Finite 1, strokeStyle = ''#000000'',
       shadowBlur = Finite 0, shadowColor = ''#000000'', lineCap = ''butt'',
       lineJoin = ''miter''\<rparr>, \<lambda>p. transparent)"

definition samplePath :: "string \<Rightarrow> (rat \<times> rat) list \<Rightarrow> DrawingPath" where
  "samplePath c xys =
     \<lparr>points = map (\<lambda>(a, b). \<lparr>px = Finite a, py = Finite b\<rparr>) xys, color = c,
      path_width = Finite 3\<rparr>"

text \<open>A note with an annotated image block, for running the round trip on an example.\<close>

definition sampleDrawnNote :: Note where
  "sampleDrawnNote =
     \<lparr>nid = ''n1'', title = ''Trip'', createdAt = 1700000000000, updatedAt = 1700000000800,
      blocks =
        [textBlock ''b1'' ''Paris was great'',
         \<lparr>bid = ''b2'', btype = Image, content = ''data:image/png;base64,AAAA'',
          width = None, height = None,
          drawings = Some [samplePath ''#22d3ee'' [(1, 1), (5 / 2, 2)],
                           samplePath ''eraser'' [(1, 1), (3, 3)]]\<rparr>],
      isPinned = False, isHidden = Some False, theme = None\<rparr>"

text \<open>A note that was last saved under the pink theme.\<close>

definition samplePinkNote :: Note where
  "samplePinkNote = (sampleNote ''a'' ''x'' 7 False)\<lparr>isHidden := Some False, theme := Some Pink\<rparr>"

section \<open>Helper lemmas on the array primitives\<close>

lemma map_unchanged: "(\<And>a. a \<in> set as \<Longrightarrow> f a = a) \<Longrightarrow> map f as = as"
  by (induction as) auto

section \<open>Upsert of a saved note\<close>

lemma saveNoteUpdater_present:
  "nid n \<in> nid ` set ns \<Longrightarrow>
   saveNoteUpdater n ns = map (\<lambda>m. if nid m = nid n then n else m) ns"
  by (cases "List.find (\<lambda>m. nid m = nid n) ns")
     (auto simp: saveNoteUpdater_def find_None_iff)

lemma saveNoteUpdater_absent:
  assumes "nid n \<notin> nid ` set ns"
  shows "saveNoteUpdater n ns = n # ns"
proof -
  have "List.find (\<lambda>m. nid m = nid n) ns = None"
    using assms by (auto simp: find_None_iff intro: rev_image_eqI)
  then show ?thesis by (simp add: saveNoteUpdater_def)
qed

lemma map_replace_distinct:
  "distinct (map f as) \<Longrightarrow> i < length as \<Longrightarrow> f (as ! i) = k \<Longrightarrow>
   map (\<lambda>m. if f m = k then n else m) as = as[i := n]"
proof (induction as arbitrary: i)
  case Nil
  then show ?case by simp
next
  case (Cons a as)
  show ?case
  proof (cases i)
    case 0
    with Cons.prems have "f a = k" and "k \<notin> f ` set as" by auto
    then have "map (\<lambda>m. if f m = k then n else m) as = as"
      by (intro map_unchanged) (metis imageI)
    with 0 \<open>f a = k\<close> show ?thesis by simp
  next
    case (Suc j)
    with Cons.prems have j: "j < length as" "f (as ! j) = k" "distinct (map f as)" by auto
    then have "k \<in> f ` set as" by (metis imageI nth_mem)
    with Cons.prems have "f a \<noteq> k" by auto
    with Suc Cons.IH [OF j(3) j(1) j(2)] show ?thesis by simp
  qed
qed

text \<open>
  Claim C10. The save handler is an upsert on the note collection. When some note of the
  collection has the id of the saved note \<open>n\<close>, the collection keeps its length and every
  position holds \<open>n\<close> if the note there had that id and the old note otherwise; with
  unique ids this is the old collection with \<open>n\<close> written at the one position of that id.
  When no note has the id, the new collection is \<open>n\<close> followed by the old collection.
\<close>

theorem handleSaveNote_upsert:
  "(nid n \<in> nid ` set (a_notes st) \<longrightarrow>
      length (a_notes (handleSaveNote n st)) = length (a_notes st) \<and>
      (\<forall>i < length (a_notes st).
         a_notes (handleSaveNote n st) ! i =
           (if nid (a_notes st ! i) = nid n then n else a_notes st ! i)) \<and>
      (\<forall>i < length (a_notes st).
         distinct (map nid (a_notes st)) \<and> nid (a_notes st ! i) = nid n \<longrightarrow>
         a_notes (handleSaveNote n st) = (a_notes st)[i := n])) \<and>
   (nid n \<notin> nid ` set (a_notes st) \<longrightarrow>
      a_notes (handleSaveNote n st) = n # a_notes st)"
proof (intro conjI impI allI)
  assume p: "nid n \<in> nid ` set (a_notes st)"
  show "length (a_notes (handleSaveNote n st)) = length (a_notes st)"
    using p by (simp add: handleSaveNote_def saveNoteUpdater_present)
  show "a_notes (handleSaveNote n st) ! i =
          (if nid (a_notes st ! i) = nid n then n else a_notes st ! i)"
    if "i < length (a_notes st)" for i
    using p that by (simp add: handleSaveNote_def saveNoteUpdater_present)
  show "a_notes (handleSaveNote n st) = (a_notes st)[i := n]"
    if "i < length (a_notes st)"
      and "distinct (map nid (a_notes st)) \<and> nid (a_notes st ! i) = nid n" for i
    using p that
    by (simp add: handleSaveNote_def saveNoteUpdater_present map_replace_distinct)
next
  assume "nid n \<notin> nid ` set (a_notes st)"
  then show "a_notes (handleSaveNote n st) = n # a_notes st"
    by (simp add: handleSaveNote_def saveNoteUpdater_absent)
qed

theorem handleSaveNote_upsert_witness:
  "a_notes (handleSaveNote (sampleNote ''b'' ''new'' 9 True)
      (sampleApp [sampleNote ''a'' ''x'' 1 False, sampleNote ''b'' ''y'' 2 False]))
     = [sampleNote ''a'' ''x'' 1 False, sampleNote ''b'' ''new'' 9 True] \<and>
   a_notes (handleSaveNote (sampleNote ''c'' ''new'' 9 True)
      (sampleApp [sampleNote ''a'' ''x'' 1 False, sampleNote ''b'' ''y'' 2 False]))
     = [sampleNote ''c'' ''new'' 9 True, sampleNote ''a'' ''x'' 1 False,
        sampleNote ''b'' ''y'' 2 False]"
proof -
  let ?st = "sampleApp [sampleNote ''a'' ''x'' 1 False, sampleNote ''b'' ''y'' 2 False]"
  let ?n = "sampleNote ''b'' ''new'' 9 True"
  let ?m = "sampleNote ''c'' ''new'' 9 True"
  have 1: "nid ?n \<in> nid ` set (a_notes ?st)"
    by (simp add: sampleApp_def sampleNote_def)
  have 2: "distinct (map nid (a_notes ?st)) \<and> nid (a_notes ?st ! 1) = nid ?n"
    by (simp add: sampleApp_def sampleNote_def)
  have 3: "1 < length (a_notes ?st)"
    by (simp add: sampleApp_def)
  have 4: "nid ?m \<notin> nid ` set (a_notes ?st)"
    by (simp add: sampleApp_def sampleNote_def)
  from handleSaveNote_upsert [of ?n ?st] 1 2 3
  have "a_notes (handleSaveNote ?n ?st) = (a_notes ?st)[1 := ?n]"
    by blast
  moreover from handleSaveNote_upsert [of ?m ?st] 4
  have "a_notes (handleSaveNote ?m ?st) = ?m # a_notes ?st"
    by blast
  ultimately show ?thesis
    by (simp add: sampleApp_def)
qed

section \<open>Operations on an id that matches nothing\<close>

lemma map_if_absent:
  "k \<notin> f ` set as \<Longrightarrow> map (\<lambda>a. if f a = k then g a else a) as = as"
  by (induction as) auto

lemma filter_absent:
  "k \<notin> f ` set as \<Longrightarrow> filter (\<lambda>a. f a \<noteq> k) as = as"
  by (induction as) auto

lemma findIndex_absent:
  "k \<notin> f ` set as \<Longrightarrow> findIndex (\<lambda>a. f a = k) as = None"
  by (induction as) auto

lemma find_absent:
  "k \<notin> f ` set as \<Longrightarrow> List.find (\<lambda>a. f a = k) as = None"
  by (induction as) auto

text \<open>
  Claim C9. When the id matches no block of the editor's list, update-content,
  update-drawings and delete-block each return the editor state they were given: the
  block list and the undo buffer are unchanged. When the id matches no note of the
  collection, deleting it returns the application state unchanged. The operations are
  total functions without an error result, as the source has no raising path.
\<close>

theorem absent_id_is_noop:
  "(i \<notin> bid ` set (e_blocks st) \<longrightarrow>
      updateBlock i c st = st \<and> updateBlockDrawings i ds st = st \<and> deleteBlock i st = st) \<and>
   (k \<notin> nid ` set (a_notes app) \<longrightarrow> handleDeleteNote k app = app)"
  by (simp add: updateBlock_def updateBlockDrawings_def deleteBlock_def handleDeleteNote_def
      map_if_absent findIndex_absent find_absent)

theorem absent_id_is_noop_witness:
  "updateBlock ''z'' ''new'' (sampleEditor [textBlock ''a'' ''x'', textBlock ''b'' ''y''])
     = sampleEditor [textBlock ''a'' ''x'', textBlock ''b'' ''y''] \<and>
   updateBlockDrawings ''z'' [] (sampleEditor [textBlock ''a'' ''x'', textBlock ''b'' ''y''])
     = sampleEditor [textBlock ''a'' ''x'', textBlock ''b'' ''y''] \<and>
   deleteBlock ''z'' (sampleEditor [textBlock ''a'' ''x'', textBlock ''b'' ''y''])
     = sampleEditor [textBlock ''a'' ''x'', textBlock ''b'' ''y''] \<and>
   handleDeleteNote ''z'' (sampleApp [sampleNote ''a'' ''x'' 1 False])
     = sampleApp [sampleNote ''a'' ''x'' 1 False]"
proof -
  let ?st = "sampleEditor [textBlock ''a'' ''x'', textBlock ''b'' ''y'']"
  let ?app = "sampleApp [sampleNote ''a'' ''x'' 1 False]"
  have 1: "''z'' \<notin> bid ` set (e_blocks ?st)"
    by (simp add: sampleEditor_def textBlock_def)
  have 2: "''z'' \<notin> nid ` set (a_notes ?app)"
    by (simp add: sampleApp_def sampleNote_def)
  from absent_id_is_noop [of "''z''" ?st "''new''" "[]" "''z''" ?app] 1 2
  show ?thesis by blast
qed

section \<open>Deleting a block and undoing the deletion\<close>

lemma findIndex_Some:
  "findIndex p as = Some k \<Longrightarrow> k < length as \<and> p (as ! k) \<and> (\<forall>j<k. \<not> p (as ! j))"
proof (induction as arbitrary: k)
  case Nil
  then show ?case by simp
next
  case (Cons a as)
  show ?case
  proof (cases "p a")
    case True
    with Cons.prems show ?thesis by simp
  next
    case False
    with Cons.prems obtain k' where k': "findIndex p as = Some k'" "k = Suc k'"
      by auto
    from Cons.IH [OF k'(1)] False k'(2) show ?thesis
      by (auto simp: nth_Cons split: nat.splits)
  qed
qed

lemma findIndex_present:
  "a \<in> set as \<Longrightarrow> p a \<Longrightarrow> \<exists>k. findIndex p as = Some k"
  by (induction as) auto

lemma filter_distinct_nth:
  "distinct (map f as) \<Longrightarrow> k < length as \<Longrightarrow>
   filter (\<lambda>a. f a \<noteq> f (as ! k)) as = splice_remove k as"
proof (induction as arbitrary: k)
  case Nil
  then show ?case by simp
next
  case (Cons a as)
  show ?case
  proof (cases k)
    case 0
    from Cons.prems have "f a \<notin> f ` set as" by simp
    then have "filter (\<lambda>b. f b \<noteq> f a) as = as"
      by (rule filter_absent)
    with 0 show ?thesis by (simp add: splice_remove_def)
  next
    case (Suc j)
    with Cons.prems have j: "distinct (map f as)" "j < length as" by auto
    then have "f (as ! j) \<in> f ` set as" by simp
    with Cons.prems have "f a \<noteq> f (as ! j)" by auto
    with Suc Cons.IH [OF j] show ?thesis by (simp add: splice_remove_def)
  qed
qed

lemma splice_insert_remove:
  "k < length as \<Longrightarrow> splice_insert k (as ! k) (splice_remove k as) = as"
  by (simp add: splice_insert_def splice_remove_def min_def id_take_nth_drop [symmetric])

lemma splice_insert_past_end:
  "length as \<le> k \<Longrightarrow> splice_insert k a as = as @ [a]"
  by (simp add: splice_insert_def)

text \<open>
  Claim C5. When the block list contains a block with id \<open>i\<close>, deleting \<open>i\<close> records in
  the undo buffer the first block with that id together with its index, and keeps the
  blocks with another id. Block ids are unique by the data model's invariant, and then
  the new list is the old one with exactly the block at that index removed, and undo
  directly after the deletion gives back the original list with an empty buffer. Undo on a
  filled buffer inserts the recorded block before the recorded index, at the end of the
  list when the index is past the end, and empties the buffer.
\<close>

theorem deleteBlock_restoreBlock:
  "(i \<in> bid ` set (e_blocks st) \<longrightarrow>
      (\<exists>index < length (e_blocks st).
         bid (e_blocks st ! index) = i \<and>
         (\<forall>j < index. bid (e_blocks st ! j) \<noteq> i) \<and>
         e_deletedBlock (deleteBlock i st) = Some (e_blocks st ! index, index) \<and>
         e_blocks (deleteBlock i st) = filter (\<lambda>b. bid b \<noteq> i) (e_blocks st) \<and>
         (distinct (map bid (e_blocks st)) \<longrightarrow>
            e_blocks (deleteBlock i st) = splice_remove index (e_blocks st) \<and>
            restoreBlock (deleteBlock i st) = st\<lparr>e_deletedBlock := None\<rparr>))) \<and>
   (e_deletedBlock s = Some (b, k) \<longrightarrow>
      e_blocks (restoreBlock s) = take k (e_blocks s) @ b # drop k (e_blocks s) \<and>
      (length (e_blocks s) \<le> k \<longrightarrow> e_blocks (restoreBlock s) = e_blocks s @ [b]) \<and>
      e_deletedBlock (restoreBlock s) = None)"
proof (intro conjI impI)
  assume a: "i \<in> bid ` set (e_blocks st)"
  then obtain index where ix: "findIndex (\<lambda>b. bid b = i) (e_blocks st) = Some index"
    using findIndex_present [of _ "e_blocks st" "\<lambda>b. bid b = i"] by auto
  from findIndex_Some [OF ix]
  have lt: "index < length (e_blocks st)" and at: "bid (e_blocks st ! index) = i"
    and first: "\<forall>j < index. bid (e_blocks st ! j) \<noteq> i"
    by simp_all
  have del: "deleteBlock i st =
      st\<lparr>e_deletedBlock := Some (e_blocks st ! index, index),
         e_blocks := filter (\<lambda>b. bid b \<noteq> i) (e_blocks st)\<rparr>"
    by (simp add: deleteBlock_def ix)
  have uniq: "e_blocks (deleteBlock i st) = splice_remove index (e_blocks st) \<and>
      restoreBlock (deleteBlock i st) = st\<lparr>e_deletedBlock := None\<rparr>"
    if d: "distinct (map bid (e_blocks st))"
  proof -
    from d lt at
    have flt: "filter (\<lambda>b. bid b \<noteq> i) (e_blocks st) = splice_remove index (e_blocks st)"
      using filter_distinct_nth [of bid "e_blocks st" index] by simp
    then show ?thesis
      by (simp add: del restoreBlock_def splice_insert_remove [OF lt])
  qed
  show "\<exists>index < length (e_blocks st).
         bid (e_blocks st ! index) = i \<and>
         (\<forall>j < index. bid (e_blocks st ! j) \<noteq> i) \<and>
         e_deletedBlock (deleteBlock i st) = Some (e_blocks st ! index, index) \<and>
         e_blocks (deleteBlock i st) = filter (\<lambda>b. bid b \<noteq> i) (e_blocks st) \<and>
         (distinct (map bid (e_blocks st)) \<longrightarrow>
            e_blocks (deleteBlock i st) = splice_remove index (e_blocks st) \<and>
            restoreBlock (deleteBlock i st) = st\<lparr>e_deletedBlock := None\<rparr>)"
  proof (intro exI [of _ index] conjI impI)
    show "index < length (e_blocks st)" by (rule lt)
    show "bid (e_blocks st ! index) = i" by (rule at)
    show "\<forall>j < index. bid (e_blocks st ! j) \<noteq> i" by (rule first)
    show "e_deletedBlock (deleteBlock i st) = Some (e_blocks st ! index, index)"
      by (simp add: del)
    show "e_blocks (deleteBlock i st) = filter (\<lambda>b. bid b \<noteq> i) (e_blocks st)"
      by (simp add: del)
    show "e_blocks (deleteBlock i st) = splice_remove index (e_blocks st)"
      if "distinct (map bid (e_blocks st))"
      using uniq [OF that] by simp
    show "restoreBlock (deleteBlock i st) = st\<lparr>e_deletedBlock := None\<rparr>"
      if "distinct (map bid (e_blocks st))"
      using uniq [OF that] by simp
  qed
next
  assume "e_deletedBlock s = Some (b, k)"
  then show "e_blocks (restoreBlock s) = take k (e_blocks s) @ b # drop k (e_blocks s)"
    by (simp add: restoreBlock_def splice_insert_def)
next
  assume "e_deletedBlock s = Some (b, k)" and "length (e_blocks s) \<le> k"
  then show "e_blocks (restoreBlock s) = e_blocks s @ [b]"
    by (simp add: restoreBlock_def splice_insert_past_end)
next
  assume "e_deletedBlock s = Some (b, k)"
  then show "e_deletedBlock (restoreBlock s) = None"
    by (simp add: restoreBlock_def)
qed

theorem deleteBlock_restoreBlock_witness:
  "e_blocks (deleteBlock ''b''
      (sampleEditor [textBlock ''a'' ''x'', textBlock ''b'' ''y'', textBlock ''c'' ''z'']))
     = [textBlock ''a'' ''x'', textBlock ''c'' ''z''] \<and>
   restoreBlock (deleteBlock ''b''
      (sampleEditor [textBlock ''a'' ''x'', textBlock ''b'' ''y'', textBlock ''c'' ''z'']))
     = sampleEditor [textBlock ''a'' ''x'', textBlock ''b'' ''y'', textBlock ''c'' ''z'']"
proof -
  let ?st = "sampleEditor [textBlock ''a'' ''x'', textBlock ''b'' ''y'', textBlock ''c'' ''z'']"
  have d: "distinct (map bid (e_blocks ?st))" "''b'' \<in> bid ` set (e_blocks ?st)"
    by (simp_all add: sampleEditor_def textBlock_def)
  from deleteBlock_restoreBlock [of "''b''" ?st] d
  have r: "restoreBlock (deleteBlock ''b'' ?st) = ?st\<lparr>e_deletedBlock := None\<rparr>"
    by blast
  have "e_blocks (deleteBlock ''b'' ?st) = [textBlock ''a'' ''x'', textBlock ''c'' ''z'']"
    by (simp add: deleteBlock_def sampleEditor_def textBlock_def)
  with r show ?thesis
    by (simp add: sampleEditor_def)
qed

section \<open>Drag reordering as a fold of moves\<close>

lemma length_splice_remove:
  "s < length as \<Longrightarrow> length (splice_remove s as) = length as - 1"
  by (simp add: splice_remove_def)

lemma length_moveElement:
  "s < length as \<Longrightarrow> t < length as \<Longrightarrow> length (moveElement as s t) = length as"
  by (simp add: moveElement_def splice_insert_def splice_remove_def)

lemma splice_remove_insert:
  "t \<le> length as \<Longrightarrow> splice_remove t (splice_insert t a as) = as"
  by (simp add: splice_remove_def splice_insert_def min_def)

lemma nth_splice_insert:
  "t \<le> length as \<Longrightarrow> splice_insert t a as ! t = a"
  by (simp add: splice_insert_def nth_append min_def)

lemma moveElement_remove:
  "s < length as \<Longrightarrow> t < length as \<Longrightarrow>
   splice_remove t (moveElement as s t) = splice_remove s as"
  by (simp add: moveElement_def splice_remove_insert length_splice_remove)

lemma moveElement_nth:
  "s < length as \<Longrightarrow> t < length as \<Longrightarrow> moveElement as s t ! t = as ! s"
  by (simp add: moveElement_def nth_splice_insert length_splice_remove)

lemma moveElement_same:
  "s < length as \<Longrightarrow> moveElement as s s = as"
  by (simp add: moveElement_def splice_insert_def splice_remove_def min_def
      id_take_nth_drop [symmetric])

lemma moveElement_twice:
  assumes "s < length as" "t < length as" "u < length as"
  shows "moveElement (moveElement as s t) t u = moveElement as s u"
proof -
  have "moveElement (moveElement as s t) t u =
          splice_insert u (moveElement as s t ! t) (splice_remove t (moveElement as s t))"
    by (simp add: moveElement_def)
  also have "\<dots> = splice_insert u (as ! s) (splice_remove s as)"
    using assms by (simp add: moveElement_remove moveElement_nth)
  finally show ?thesis by (simp add: moveElement_def)
qed

lemma mset_take_drop: "mset (take t as) + mset (drop t as) = mset as"
proof -
  have "mset (take t as) + mset (drop t as) = mset (take t as @ drop t as)"
    by (simp only: mset_append)
  also have "\<dots> = mset as" by (simp only: append_take_drop_id)
  finally show ?thesis .
qed

lemma mset_splice_insert: "mset (splice_insert t a as) = add_mset a (mset as)"
  using mset_take_drop [of t as] by (simp add: splice_insert_def)

lemma mset_splice_remove:
  "s < length as \<Longrightarrow> add_mset (as ! s) (mset (splice_remove s as)) = mset as"
proof -
  assume s: "s < length as"
  have "add_mset (as ! s) (mset (splice_remove s as)) = mset (take s as @ as ! s # drop (Suc s) as)"
    by (simp add: splice_remove_def)
  also have "\<dots> = mset as"
    using s by (simp only: id_take_nth_drop [symmetric])
  finally show ?thesis .
qed

lemma mset_moveElement:
  "s < length as \<Longrightarrow> mset (moveElement as s t) = mset as"
  by (simp add: moveElement_def mset_splice_insert mset_splice_remove)

lemma dragFold_Cons:
  "dragFold as i (j # js) =
     (if j = i then dragFold as i js else dragFold (moveElement as i j) j js)"
  by (simp add: dragFold_def)

lemma dragFold_closed_form:
  "i < length as \<Longrightarrow> \<forall>j \<in> set js. j < length as \<Longrightarrow>
   dragFold as i js = (moveElement as i (last (i # js)), last (i # js))"
proof (induction js arbitrary: as i rule: rev_induct)
  case Nil
  then show ?case by (simp add: dragFold_def moveElement_same)
next
  case (snoc j js)
  then have IH: "dragFold as i js = (moveElement as i (last (i # js)), last (i # js))"
    by simp
  have l: "last (i # js) < length as" using snoc.prems by (cases js rule: rev_cases) auto
  have j: "j < length as" using snoc.prems by simp
  have "dragFold as i (js @ [j]) =
          (case dragFold as i js of (bs, s) \<Rightarrow> if j = s then (bs, s) else (moveElement bs s j, j))"
    by (simp add: dragFold_def split: prod.splits)
  also have "\<dots> = (moveElement as i j, j)"
    using snoc.prems l j by (auto simp: IH moveElement_twice)
  finally show ?case by simp
qed

lemma dragEnters_fold:
  "e_dragItem st = Some s \<Longrightarrow> s < length (e_blocks st) \<Longrightarrow>
   \<forall>j \<in> set js. j < length (e_blocks st) \<Longrightarrow>
   dragEnters js st =
     Some (st\<lparr>e_blocks := fst (dragFold (e_blocks st) s js),
              e_dragItem := Some (snd (dragFold (e_blocks st) s js)),
              e_dragOverItem := (if js = [] then e_dragOverItem st else Some (last js))\<rparr>)"
proof (induction js arbitrary: st s)
  case Nil
  then show ?case by (simp add: dragFold_def)
next
  case (Cons j js)
  show ?case
  proof (cases "j = s")
    case True
    let ?st1 = "st\<lparr>e_dragOverItem := Some j\<rparr>"
    have step: "handleDragEnter j st = Some ?st1"
      using Cons.prems True by (simp add: handleDragEnter_def)
    have "dragEnters js ?st1 = Some (?st1\<lparr>e_blocks := fst (dragFold (e_blocks ?st1) s js),
              e_dragItem := Some (snd (dragFold (e_blocks ?st1) s js)),
              e_dragOverItem := (if js = [] then e_dragOverItem ?st1 else Some (last js))\<rparr>)"
      using Cons.prems by (intro Cons.IH) auto
    with step True show ?thesis by (simp add: dragFold_Cons)
  next
    case False
    let ?bs = "moveElement (e_blocks st) s j"
    let ?st1 = "st\<lparr>e_dragOverItem := Some j, e_blocks := ?bs, e_dragItem := Some j\<rparr>"
    have step: "handleDragEnter j st = Some ?st1"
      using Cons.prems False by (simp add: handleDragEnter_def moveElement_def)
    have len: "length ?bs = length (e_blocks st)"
      using Cons.prems by (simp add: length_moveElement)
    have "dragEnters js ?st1 = Some (?st1\<lparr>e_blocks := fst (dragFold (e_blocks ?st1) j js),
              e_dragItem := Some (snd (dragFold (e_blocks ?st1) j js)),
              e_dragOverItem := (if js = [] then e_dragOverItem ?st1 else Some (last js))\<rparr>)"
      using Cons.prems len by (intro Cons.IH) auto
    with step False show ?thesis by (simp add: dragFold_Cons)
  qed
qed

text \<open>
  Claim C4. While a drag is tracked at source index \<open>s\<close>, a drag-enter at a target
  \<open>t \<noteq> s\<close> replaces the block list by the list with the block spliced out at \<open>s\<close> and
  inserted at \<open>t\<close> and sets the tracked index to \<open>t\<close>; a drag-enter at \<open>t = s\<close> leaves the
  list and the tracked index as they are. For a gesture that starts at index \<open>i\<close> and
  passes through the targets \<open>js\<close>, all inside the list, the final list and tracked index
  are the left fold of these moves over \<open>js\<close>; the final list is the original with the
  dragged block moved to the last target, and holds the same blocks.
\<close>

theorem dragGesture_is_fold:
  "(e_dragItem st = Some s \<and> s < length (e_blocks st) \<longrightarrow>
      (t \<noteq> s \<longrightarrow>
         handleDragEnter t st =
           Some (st\<lparr>e_dragOverItem := Some t,
                    e_blocks := splice_insert t (e_blocks st ! s) (splice_remove s (e_blocks st)),
                    e_dragItem := Some t\<rparr>)) \<and>
      handleDragEnter s st = Some (st\<lparr>e_dragOverItem := Some s\<rparr>)) \<and>
   (i < length (e_blocks st) \<and> (\<forall>j \<in> set js. j < length (e_blocks st)) \<longrightarrow>
      (\<exists>st'. dragGesture i js st = Some st' \<and>
         e_blocks st' = fst (dragFold (e_blocks st) i js) \<and>
         e_dragItem st' = Some (snd (dragFold (e_blocks st) i js)) \<and>
         e_blocks st' = moveElement (e_blocks st) i (last (i # js)) \<and>
         mset (e_blocks st') = mset (e_blocks st)))"
proof (intro conjI impI)
  assume a: "e_dragItem st = Some s \<and> s < length (e_blocks st)"
  then show "handleDragEnter s st = Some (st\<lparr>e_dragOverItem := Some s\<rparr>)"
    by (simp add: handleDragEnter_def)
  assume "t \<noteq> s"
  with a show "handleDragEnter t st =
      Some (st\<lparr>e_dragOverItem := Some t,
               e_blocks := splice_insert t (e_blocks st ! s) (splice_remove s (e_blocks st)),
               e_dragItem := Some t\<rparr>)"
    by (auto simp: handleDragEnter_def)
next
  assume a: "i < length (e_blocks st) \<and> (\<forall>j \<in> set js. j < length (e_blocks st))"
  let ?begun = "handleDragStart i st"
  have b: "e_blocks ?begun = e_blocks st" "e_dragItem ?begun = Some i"
    by (simp_all add: handleDragStart_def)
  have "dragEnters js ?begun =
     Some (?begun\<lparr>e_blocks := fst (dragFold (e_blocks ?begun) i js),
              e_dragItem := Some (snd (dragFold (e_blocks ?begun) i js)),
              e_dragOverItem := (if js = [] then e_dragOverItem ?begun else Some (last js))\<rparr>)"
    using a b by (intro dragEnters_fold) auto
  moreover have "dragFold (e_blocks st) i js =
      (moveElement (e_blocks st) i (last (i # js)), last (i # js))"
    using a by (intro dragFold_closed_form) auto
  ultimately show "\<exists>st'. dragGesture i js st = Some st' \<and>
         e_blocks st' = fst (dragFold (e_blocks st) i js) \<and>
         e_dragItem st' = Some (snd (dragFold (e_blocks st) i js)) \<and>
         e_blocks st' = moveElement (e_blocks st) i (last (i # js)) \<and>
         mset (e_blocks st') = mset (e_blocks st)"
    using a b by (simp add: dragGesture_def mset_moveElement)
qed

theorem dragGesture_is_fold_witness:
  "map_option e_blocks (dragGesture 0 [1, 2, 2, 1]
      (sampleEditor [textBlock ''a'' ''x'', textBlock ''b'' ''y'', textBlock ''c'' ''z'',
                     textBlock ''d'' ''w'']))
     = Some [textBlock ''b'' ''y'', textBlock ''a'' ''x'', textBlock ''c'' ''z'',
             textBlock ''d'' ''w''] \<and>
   map_option e_blocks (handleDragEnter 2 (handleDragStart 0
      (sampleEditor [textBlock ''a'' ''x'', textBlock ''b'' ''y'', textBlock ''c'' ''z'',
                     textBlock ''d'' ''w''])))
     = Some [textBlock ''b'' ''y'', textBlock ''c'' ''z'', textBlock ''a'' ''x'',
             textBlock ''d'' ''w'']"
proof -
  let ?bs = "[textBlock ''a'' ''x'', textBlock ''b'' ''y'', textBlock ''c'' ''z'',
              textBlock ''d'' ''w'']"
  let ?st = "sampleEditor ?bs"
  let ?begun = "handleDragStart 0 ?st"
  have h: "0 < length (e_blocks ?st) \<and> (\<forall>j \<in> set [1, 2, 2, 1]. j < length (e_blocks ?st))"
    by (simp add: sampleEditor_def)
  from dragGesture_is_fold [where st = ?st and i = 0 and js = "[1, 2, 2, 1]"] h
  obtain st' where st': "dragGesture 0 [1, 2, 2, 1] ?st = Some st'"
    "e_blocks st' = moveElement (e_blocks ?st) 0 (last [0, 1, 2, 2, 1])"
    by auto
  have "moveElement (e_blocks ?st) 0 (last [0, 1, 2, 2, 1]) =
      [textBlock ''b'' ''y'', textBlock ''a'' ''x'', textBlock ''c'' ''z'', textBlock ''d'' ''w'']"
    by (simp add: sampleEditor_def moveElement_def splice_insert_def splice_remove_def)
  with st' have 1: "map_option e_blocks (dragGesture 0 [1, 2, 2, 1] ?st) =
      Some [textBlock ''b'' ''y'', textBlock ''a'' ''x'', textBlock ''c'' ''z'',
            textBlock ''d'' ''w'']"
    by simp
  have g: "e_dragItem ?begun = Some 0 \<and> 0 < length (e_blocks ?begun)" and ne: "(2::nat) \<noteq> 0"
    by (simp_all add: handleDragStart_def sampleEditor_def)
  from dragGesture_is_fold [where st = ?begun and s = 0 and t = 2] g ne
  have "handleDragEnter 2 ?begun =
      Some (?begun\<lparr>e_dragOverItem := Some 2,
                 e_blocks := splice_insert 2 (e_blocks ?begun ! 0) (splice_remove 0 (e_blocks ?begun)),
                 e_dragItem := Some 2\<rparr>)"
    by blast
  then have 2: "map_option e_blocks (handleDragEnter 2 ?begun) =
      Some [textBlock ''b'' ''y'', textBlock ''c'' ''z'', textBlock ''a'' ''x'',
            textBlock ''d'' ''w'']"
    by (simp add: handleDragStart_def sampleEditor_def splice_insert_def splice_remove_def)
  from 1 2 show ?thesis by blast
qed

section \<open>Committing a stroke\<close>

text \<open>
  Claim C6. When a stroke is in progress and the pointer is released: with at least two
  buffered points, the path list gains one path at its end, whose points are the buffered
  points, whose colour is \<open>''eraser''\<close> for the eraser tool and the selected colour for the
  pen, and whose width is the brush size; with fewer than two points the path list is
  unchanged. In both cases the point buffer is empty afterwards and no stroke is in
  progress. A release while no stroke is in progress changes nothing.
\<close>

theorem stopDrawing_commits_stroke:
  "(c_isDrawing st \<longrightarrow>
      (2 \<le> length (c_currentPoints st) \<longrightarrow>
         c_paths (stopDrawing st) = c_paths st @
           [\<lparr>points = c_currentPoints st,
             color = (if c_tool st = Eraser then ''eraser'' else c_selectedColor st),
             path_width = c_brushSize st\<rparr>]) \<and>
      (length (c_currentPoints st) < 2 \<longrightarrow> c_paths (stopDrawing st) = c_paths st) \<and>
      c_currentPoints (stopDrawing st) = [] \<and>
      \<not> c_isDrawing (stopDrawing st)) \<and>
   (\<not> c_isDrawing st \<longrightarrow> stopDrawing st = st)"
  by (simp add: stopDrawing_def)

theorem stopDrawing_commits_stroke_witness:
  "c_paths (stopDrawing (draw \<lparr>px = Finite 3, py = Finite 4\<rparr>
      (startDrawing False \<lparr>px = Finite 1, py = Finite 2\<rparr> (openCanvas []))))
     = [\<lparr>points = [\<lparr>px = Finite 1, py = Finite 2\<rparr>, \<lparr>px = Finite 3, py = Finite 4\<rparr>],
         color = ''#22d3ee'', path_width = Finite 3\<rparr>] \<and>
   c_paths (stopDrawing (startDrawing False \<lparr>px = Finite 1, py = Finite 2\<rparr> (openCanvas [])))
     = [] \<and>
   stopDrawing (openCanvas []) = openCanvas []"
proof -
  let ?p = "\<lparr>px = Finite 1, py = Finite 2\<rparr>" and ?q = "\<lparr>px = Finite 3, py = Finite 4\<rparr>"
  let ?tap = "startDrawing False ?p (openCanvas [])"
  let ?line = "draw ?q ?tap"
  have 1: "c_isDrawing ?line \<and> 2 \<le> length (c_currentPoints ?line)"
    by (simp add: draw_def startDrawing_def openCanvas_def)
  have 2: "c_isDrawing ?tap \<and> length (c_currentPoints ?tap) < 2"
    by (simp add: startDrawing_def openCanvas_def)
  have 3: "\<not> c_isDrawing (openCanvas [])"
    by (simp add: openCanvas_def)
  from stopDrawing_commits_stroke [of ?line] 1
  have "c_paths (stopDrawing ?line) = c_paths ?line @
      [\<lparr>points = c_currentPoints ?line,
        color = (if c_tool ?line = Eraser then ''eraser'' else c_selectedColor ?line),
        path_width = c_brushSize ?line\<rparr>]"
    by blast
  moreover from stopDrawing_commits_stroke [of ?tap] 2
  have "c_paths (stopDrawing ?tap) = c_paths ?tap"
    by blast
  moreover from stopDrawing_commits_stroke [of "openCanvas []"] 3
  have "stopDrawing (openCanvas []) = openCanvas []"
    by blast
  ultimately show ?thesis
    by (simp add: draw_def startDrawing_def openCanvas_def NEON_COLORS_def)
qed

section \<open>The auto-save commit\<close>

lemma map_nid_saveNoteUpdater:
  "nid n \<in> nid ` set ns \<Longrightarrow> map nid (saveNoteUpdater n ns) = map nid ns"
  by (simp add: saveNoteUpdater_present comp_def cong: map_cong)

text \<open>
  The commits keep what is stored in that form: a commit whose generated id is not empty
  and whose clock reading is not 0 yields a note with a non-empty id and a non-zero
  \<^verbatim>\<open>createdAt\<close>, and so do the pin and hide toggles, which copy both fields.
\<close>

lemma autoSaveFires_Some:
  "autoSave (a_activeNote st) th f u v ed = Some m \<Longrightarrow>
   autoSaveFires th f u v ed st = handleSaveNote m st"
  by (simp add: autoSaveFires_def)

lemma autoSave_persisted:
  assumes "freshId \<noteq> []" and "now1 \<noteq> 0"
    and "autoSave note th freshId now1 now2 ed = Some m"
  shows "persisted m"
  using assms by (auto simp: autoSave_def persisted_def split: option.splits if_splits)

lemma toggle_persisted:
  "persisted (n\<lparr>isHidden := h\<rparr>) = persisted n" "persisted (n\<lparr>isPinned := p\<rparr>) = persisted n"
  by (simp_all add: persisted_def)

text \<open>
  A note created in the session. \<^verbatim>\<open>handleCreateNote\<close> opens the editor with no active
  note, and \<^verbatim>\<open>handleSaveNote\<close> replaces the active note only when it already holds a note
  with the saved id. The editor's \<^verbatim>\<open>note\<close> prop therefore stays unset after the first
  commit, and the next commit takes another fresh id and clock reading and is prepended
  as one more note.
\<close>

lemma new_note_commits_are_prepended:
  "map (\<lambda>m. (nid m, title m, createdAt m))
     (a_notes (autoSaveFires Dark ''id2'' 9 9 ((openEditor None)\<lparr>e_title := ''Trips''\<rparr>)
        (autoSaveFires Dark ''id1'' 5 5 ((openEditor None)\<lparr>e_title := ''Trip''\<rparr>)
           (handleCreateNote (sampleApp [])))))
     = [(''id2'', ''Trips'', 9), (''id1'', ''Trip'', 5)]"
  by (simp add: autoSaveFires_def autoSave_def handleSaveNote_def saveNoteUpdater_def
      handleCreateNote_def openEditor_def sampleApp_def)

text \<open>
  Claim C8, as the source has it. The claim as stated fails for an unchanged note that
  was last saved under another theme: the commit writes the current theme into the note,
  so \<^verbatim>\<open>updatedAt\<close> is not the only field that is refreshed.
\<close>

theorem autoSave_refreshes_theme_counterexample:
  "autoSave (Some samplePinkNote) Dark ''fresh'' 5 6 (openEditor (Some samplePinkNote))
     = Some (samplePinkNote\<lparr>updatedAt := 6, theme := Some Dark\<rparr>) \<and>
   samplePinkNote\<lparr>updatedAt := 6, theme := Some Dark\<rparr> \<noteq> samplePinkNote\<lparr>updatedAt := 6\<rparr>"
  by (simp add: autoSave_def openEditor_def samplePinkNote_def sampleNote_def)

text \<open>
  Claim C8, amended. Let the editor's \<^verbatim>\<open>note\<close> prop be a stored note \<open>n\<close>. The committed
  note has the id and \<^verbatim>\<open>createdAt\<close> of \<open>n\<close>, the editor's block list, title and flags,
  the current theme, and \<^verbatim>\<open>updatedAt\<close> equal to the commit time; from an editor in which
  nothing was edited it is \<open>n\<close> with \<^verbatim>\<open>updatedAt\<close> set to the commit time, the theme set to
  the current theme, and the hidden flag as a boolean. The first save of a new note (no note yet,
  a block or a title present) yields a note with the fresh id and with \<^verbatim>\<open>createdAt\<close>
  equal to the commit time, and nothing is committed without a block and a title. For a note \<open>n\<close>
  opened from the list, two commits in a row without an edit leave as active note \<open>n\<close>
  with the later \<^verbatim>\<open>updatedAt\<close> and theme, and the collection, if it held \<open>n\<close>'s id,
  holds the same ids in the same order.
\<close>

theorem autoSave_preserves_identity:
  "(persisted n \<longrightarrow>
      autoSave (Some n) th fresh t1 t2 ed =
        Some \<lparr>nid = nid n, title = e_title ed, createdAt = createdAt n, updatedAt = t2,
              blocks = e_blocks ed, isPinned = e_isPinned ed, isHidden = Some (e_isHidden ed),
              theme = Some th\<rparr> \<and>
      autoSave (Some n) th fresh t1 t2 (openEditor (Some n)) =
        Some (n\<lparr>updatedAt := t2, isHidden := Some (isHidden n = Some True), theme := Some th\<rparr>)) \<and>
   (e_blocks ed \<noteq> [] \<or> e_title ed \<noteq> [] \<longrightarrow>
      autoSave None th fresh t1 t2 ed =
        Some \<lparr>nid = fresh, title = e_title ed, createdAt = t1, updatedAt = t2,
              blocks = e_blocks ed, isPinned = e_isPinned ed, isHidden = Some (e_isHidden ed),
              theme = Some th\<rparr>) \<and>
   (e_blocks ed = [] \<and> e_title ed = [] \<longrightarrow> autoSave None th fresh t1 t2 ed = None) \<and>
   (persisted n \<longrightarrow>
      a_activeNote (autoSaveFires th fresh t1 t2 (openEditor (Some n)) (handleSelectNote n app)) =
        Some (n\<lparr>updatedAt := t2, isHidden := Some (isHidden n = Some True), theme := Some th\<rparr>) \<and>
      a_activeNote
        (autoSaveFires th' fresh' t3 t4 (openEditor (Some n))
           (autoSaveFires th fresh t1 t2 (openEditor (Some n)) (handleSelectNote n app))) =
        Some (n\<lparr>updatedAt := t4, isHidden := Some (isHidden n = Some True), theme := Some th'\<rparr>) \<and>
      (nid n \<in> nid ` set (a_notes app) \<longrightarrow>
         map nid (a_notes
           (autoSaveFires th' fresh' t3 t4 (openEditor (Some n))
              (autoSaveFires th fresh t1 t2 (openEditor (Some n)) (handleSelectNote n app)))) =
         map nid (a_notes app)))"
proof (intro conjI impI)
  show "autoSave None th fresh t1 t2 ed =
        Some \<lparr>nid = fresh, title = e_title ed, createdAt = t1, updatedAt = t2,
              blocks = e_blocks ed, isPinned = e_isPinned ed, isHidden = Some (e_isHidden ed),
              theme = Some th\<rparr>"
    if "e_blocks ed \<noteq> [] \<or> e_title ed \<noteq> []"
    using that by (auto simp: autoSave_def)
  show "autoSave None th fresh t1 t2 ed = None" if "e_blocks ed = [] \<and> e_title ed = []"
    using that by (simp add: autoSave_def)
next
  assume p: "persisted n"
  let ?n1 = "n\<lparr>updatedAt := t2, isHidden := Some (isHidden n = Some True), theme := Some th\<rparr>"
  let ?n2 = "n\<lparr>updatedAt := t4, isHidden := Some (isHidden n = Some True), theme := Some th'\<rparr>"
  let ?app0 = "handleSelectNote n app"
  let ?app1 = "autoSaveFires th fresh t1 t2 (openEditor (Some n)) ?app0"
  let ?app2 = "autoSaveFires th' fresh' t3 t4 (openEditor (Some n)) ?app1"
  show "autoSave (Some n) th fresh t1 t2 ed =
        Some \<lparr>nid = nid n, title = e_title ed, createdAt = createdAt n, updatedAt = t2,
              blocks = e_blocks ed, isPinned = e_isPinned ed, isHidden = Some (e_isHidden ed),
              theme = Some th\<rparr>"
    using p by (simp add: autoSave_def persisted_def)
  have c: "autoSave (Some m) k f u v (openEditor (Some n)) =
           Some (n\<lparr>updatedAt := v, isHidden := Some (isHidden n = Some True), theme := Some k\<rparr>)"
    if "nid m = nid n" "createdAt m = createdAt n" for m k f u v
    using p that by (simp add: autoSave_def persisted_def openEditor_def)
  show s1: "autoSave (Some n) th fresh t1 t2 (openEditor (Some n)) = Some ?n1"
    by (rule c) simp_all
  have a0: "a_activeNote ?app0 = Some n" "a_notes ?app0 = a_notes app"
    by (simp_all add: handleSelectNote_def)
  have app1: "?app1 = handleSaveNote ?n1 ?app0"
    by (rule autoSaveFires_Some) (simp add: a0 s1)
  show a1: "a_activeNote ?app1 = Some ?n1"
    by (simp add: app1 handleSaveNote_def a0)
  have s2: "autoSave (Some ?n1) th' fresh' t3 t4 (openEditor (Some n)) = Some ?n2"
    by (rule c) simp_all
  have app2: "?app2 = handleSaveNote ?n2 ?app1"
    by (rule autoSaveFires_Some) (simp only: a1 s2)
  show "a_activeNote ?app2 = Some ?n2"
    by (simp add: app2 handleSaveNote_def a1)
  assume i: "nid n \<in> nid ` set (a_notes app)"
  have n1: "a_notes ?app1 = saveNoteUpdater ?n1 (a_notes app)"
    by (simp add: app1 handleSaveNote_def a0)
  have m1: "map nid (a_notes ?app1) = map nid (a_notes app)"
    unfolding n1 using i by (intro map_nid_saveNoteUpdater) simp
  have "nid ` set (a_notes ?app1) = nid ` set (a_notes app)"
    using arg_cong [OF m1, of set] by simp
  with i have "nid ?n2 \<in> nid ` set (a_notes ?app1)"
    by simp
  then have "map nid (saveNoteUpdater ?n2 (a_notes ?app1)) = map nid (a_notes ?app1)"
    by (rule map_nid_saveNoteUpdater)
  then show "map nid (a_notes ?app2) = map nid (a_notes app)"
    by (simp add: app2 handleSaveNote_def m1)
qed

theorem autoSave_preserves_identity_witness:
  "autoSave (Some samplePinkNote) Dark ''fresh'' 5 6 (openEditor (Some samplePinkNote))
     = Some (samplePinkNote\<lparr>updatedAt := 6, theme := Some Dark\<rparr>) \<and>
   map_option (\<lambda>m. (nid m, createdAt m, updatedAt m, blocks m))
     (autoSave None Dark ''fresh'' 5 6 (sampleEditor [textBlock ''b'' ''x'']))
     = Some (''fresh'', 5, 6, [textBlock ''b'' ''x'']) \<and>
   map nid (a_notes
     (autoSaveFires Royal ''f2'' 8 9 (openEditor (Some samplePinkNote))
        (autoSaveFires Dark ''f1'' 5 6 (openEditor (Some samplePinkNote))
           (handleSelectNote samplePinkNote
              (sampleApp [sampleNote ''z'' ''y'' 3 True, samplePinkNote])))))
     = [''z'', ''a'']"
proof -
  let ?n = samplePinkNote
  let ?ed = "sampleEditor [textBlock ''b'' ''x'']"
  let ?app = "sampleApp [sampleNote ''z'' ''y'' 3 True, samplePinkNote]"
  have 1: "persisted ?n"
    by (simp add: persisted_def samplePinkNote_def sampleNote_def)
  have 2: "e_blocks ?ed \<noteq> [] \<or> e_title ?ed \<noteq> []"
    by (simp add: sampleEditor_def)
  have 3: "nid ?n \<in> nid ` set (a_notes ?app)"
    by (simp add: sampleApp_def)
  note inst = autoSave_preserves_identity
    [where n = ?n and ed = ?ed and th = Dark and fresh = "''f1''" and ?t1.0 = 5 and ?t2.0 = 6
       and th' = Royal and fresh' = "''f2''" and ?t3.0 = 8 and ?t4.0 = 9 and app = ?app]
  from autoSave_preserves_identity
    [where n = ?n and th = Dark and fresh = "''fresh''" and ?t1.0 = 5 and ?t2.0 = 6] 1
  have "autoSave (Some ?n) Dark ''fresh'' 5 6 (openEditor (Some ?n)) =
      Some (?n\<lparr>updatedAt := 6, isHidden := Some (isHidden ?n = Some True), theme := Some Dark\<rparr>)"
    by blast
  then have a: "autoSave (Some ?n) Dark ''fresh'' 5 6 (openEditor (Some ?n)) =
      Some (?n\<lparr>updatedAt := 6, theme := Some Dark\<rparr>)"
    by (simp add: samplePinkNote_def)
  from autoSave_preserves_identity
    [where ed = ?ed and th = Dark and fresh = "''fresh''" and ?t1.0 = 5 and ?t2.0 = 6] 2
  have "autoSave None Dark ''fresh'' 5 6 ?ed =
      Some \<lparr>nid = ''fresh'', title = e_title ?ed, createdAt = 5, updatedAt = 6,
            blocks = e_blocks ?ed, isPinned = e_isPinned ?ed, isHidden = Some (e_isHidden ?ed),
            theme = Some Dark\<rparr>"
    by blast
  then have b: "map_option (\<lambda>m. (nid m, createdAt m, updatedAt m, blocks m))
      (autoSave None Dark ''fresh'' 5 6 ?ed) = Some (''fresh'', 5, 6, [textBlock ''b'' ''x''])"
    by (simp add: sampleEditor_def)
  from inst 1 3
  have "map nid (a_notes
     (autoSaveFires Royal ''f2'' 8 9 (openEditor (Some ?n))
        (autoSaveFires Dark ''f1'' 5 6 (openEditor (Some ?n)) (handleSelectNote ?n ?app)))) =
     map nid (a_notes ?app)"
    by blast
  then have c: "map nid (a_notes
     (autoSaveFires Royal ''f2'' 8 9 (openEditor (Some ?n))
        (autoSaveFires Dark ''f1'' 5 6 (openEditor (Some ?n)) (handleSelectNote ?n ?app)))) =
     [''z'', ''a'']"
    by (simp add: sampleApp_def sampleNote_def samplePinkNote_def)
  from a b c show ?thesis by blast
qed

section \<open>The list view's filter\<close>

lemma dropWhile_all_iff: "(\<forall>c \<in> set (dropWhile p s). p c) \<longleftrightarrow> (\<forall>c \<in> set s. p c)"
  by (induction s) auto

lemma trim_empty_iff: "trim ws s = [] \<longleftrightarrow> (\<forall>c \<in> set s. ws c)"
  by (simp add: trim_def dropWhile_eq_Nil_conv dropWhile_all_iff)

lemma startsWith_iff: "startsWith s q \<longleftrightarrow> (\<exists>post. s = q @ post)"
  by (induction s q rule: startsWith.induct) auto

lemma includes_iff: "includes_str s q \<longleftrightarrow> (\<exists>pre post. s = pre @ q @ post)"
proof (induction s)
  case Nil
  then show ?case by simp
next
  case (Cons c cs)
  show ?case
  proof
    assume "includes_str (c # cs) q"
    then consider "startsWith (c # cs) q" | "includes_str cs q" by auto
    then show "\<exists>pre post. c # cs = pre @ q @ post"
    proof cases
      case 1
      then obtain post where "c # cs = q @ post" by (auto simp: startsWith_iff)
      then have "c # cs = [] @ q @ post" by simp
      then show ?thesis by blast
    next
      case 2
      with Cons.IH obtain pre post where "cs = pre @ q @ post" by auto
      then have "c # cs = (c # pre) @ q @ post" by simp
      then show ?thesis by blast
    qed
  next
    assume "\<exists>pre post. c # cs = pre @ q @ post"
    then obtain pre post where e: "c # cs = pre @ q @ post" by auto
    show "includes_str (c # cs) q"
    proof (cases pre)
      case Nil
      with e have "startsWith (c # cs) q" by (auto simp: startsWith_iff)
      then show ?thesis by simp
    next
      case (Cons d pre')
      with e have "cs = pre' @ q @ post" by simp
      with Cons.IH have "includes_str cs q" by blast
      then show ?thesis by simp
    qed
  qed
qed

text \<open>
  Claim C2. A note is in the filtered list exactly when it is in the input list, its
  hidden flag matches the mode (the hidden view keeps the notes whose flag is \<^verbatim>\<open>true\<close>, the
  default view keeps the others, an unset flag counting as not hidden), and the query is
  blank (every character is white space) or the lower-cased query occurs in the
  lower-cased title or in the lower-cased content of a text block. With a blank query the
  two modes are the two filters on the flag; they share no note and together hold every
  note of the input, each as often as the input does.
\<close>

theorem filteredNotes_keeps_iff:
  "(n \<in> set (filteredNotes lower ws notes showHidden q) \<longleftrightarrow>
      n \<in> set notes \<and>
      (if showHidden then isHidden n = Some True else isHidden n \<noteq> Some True) \<and>
      ((\<forall>c \<in> set q. ws c) \<or>
       (\<exists>pre post. lower (title n) = pre @ lower q @ post) \<or>
       (\<exists>b \<in> set (blocks n). btype b = Text \<and>
          (\<exists>pre post. lower (content b) = pre @ lower q @ post)))) \<and>
   ((\<forall>c \<in> set q. ws c) \<longrightarrow>
      filteredNotes lower ws notes True q = filter (\<lambda>n. isHidden n = Some True) notes \<and>
      filteredNotes lower ws notes False q = filter (\<lambda>n. isHidden n \<noteq> Some True) notes \<and>
      set (filteredNotes lower ws notes True q) \<inter> set (filteredNotes lower ws notes False q) = {} \<and>
      mset (filteredNotes lower ws notes True q) + mset (filteredNotes lower ws notes False q)
        = mset notes)"
proof (intro conjI impI)
  show "n \<in> set (filteredNotes lower ws notes showHidden q) \<longleftrightarrow>
      n \<in> set notes \<and>
      (if showHidden then isHidden n = Some True else isHidden n \<noteq> Some True) \<and>
      ((\<forall>c \<in> set q. ws c) \<or>
       (\<exists>pre post. lower (title n) = pre @ lower q @ post) \<or>
       (\<exists>b \<in> set (blocks n). btype b = Text \<and>
          (\<exists>pre post. lower (content b) = pre @ lower q @ post)))"
    by (simp add: filteredNotes_def trim_empty_iff includes_iff list_ex_iff Let_def) blast
next
  assume blank: "\<forall>c \<in> set q. ws c"
  then have t: "trim ws q = []" by (simp add: trim_empty_iff)
  show T: "filteredNotes lower ws notes True q = filter (\<lambda>n. isHidden n = Some True) notes"
    by (simp add: filteredNotes_def t)
  show F: "filteredNotes lower ws notes False q = filter (\<lambda>n. isHidden n \<noteq> Some True) notes"
    by (simp add: filteredNotes_def t)
  show "set (filteredNotes lower ws notes True q) \<inter> set (filteredNotes lower ws notes False q) = {}"
    unfolding T F by auto
  show "mset (filteredNotes lower ws notes True q) + mset (filteredNotes lower ws notes False q)
        = mset notes"
    unfolding T F by simp
qed

theorem filteredNotes_keeps_iff_witness:
  "sampleNote ''2'' ''beta'' 1 False \<in>
     set (filteredNotes asciiLower asciiSpace
            [sampleNote ''1'' ''Alpha'' 1 False, sampleNote ''2'' ''beta'' 1 False,
             sampleNote ''3'' ''Gamma'' 1 False] False ''B'') \<and>
   filteredNotes asciiLower asciiSpace
     [sampleNote ''1'' ''Alpha'' 1 False, (sampleNote ''2'' ''beta'' 1 False)\<lparr>isHidden := Some True\<rparr>]
     True ''  ''
     = [(sampleNote ''2'' ''beta'' 1 False)\<lparr>isHidden := Some True\<rparr>]"
proof -
  let ?a = "sampleNote ''1'' ''Alpha'' 1 False"
  let ?b = "sampleNote ''2'' ''beta'' 1 False"
  let ?g = "sampleNote ''3'' ''Gamma'' 1 False"
  have lo: "asciiLower ''B'' = ''b''" "asciiLower ''beta'' = ''beta''"
    by code_simp+
  have "asciiLower (title ?b) = [] @ asciiLower ''B'' @ ''eta''"
    by (simp add: lo sampleNote_def)
  then have occ: "\<exists>pre post. asciiLower (title ?b) = pre @ asciiLower ''B'' @ post"
    by blast
  have vis: "isHidden ?b \<noteq> Some True" "?b \<in> set [?a, ?b, ?g]"
    by (simp_all add: sampleNote_def)
  from filteredNotes_keeps_iff [of ?b asciiLower asciiSpace "[?a, ?b, ?g]" False "''B''"] occ vis
  have 1: "?b \<in> set (filteredNotes asciiLower asciiSpace [?a, ?b, ?g] False ''B'')"
    by simp
  have blank: "\<forall>c \<in> set ''  ''. asciiSpace c"
    by (simp add: asciiSpace_def)
  from filteredNotes_keeps_iff
    [of ?b asciiLower asciiSpace "[?a, ?b\<lparr>isHidden := Some True\<rparr>]" True "''  ''"] blank
  have "filteredNotes asciiLower asciiSpace [?a, ?b\<lparr>isHidden := Some True\<rparr>] True ''  '' =
      filter (\<lambda>n. isHidden n = Some True) [?a, ?b\<lparr>isHidden := Some True\<rparr>]"
    by blast
  then have 2: "filteredNotes asciiLower asciiSpace [?a, ?b\<lparr>isHidden := Some True\<rparr>] True ''  '' =
      [?b\<lparr>isHidden := Some True\<rparr>]"
    by (simp add: sampleNote_def)
  from 1 2 show ?thesis by blast
qed

section \<open>The list view's sort\<close>

lemma mset_insertBy: "mset (insertBy cmp a bs) = add_mset a (mset bs)"
  by (induction bs) auto

lemma set_insertBy: "set (insertBy cmp a bs) = insert a (set bs)"
  by (induction bs) auto

lemma sortBy_Cons: "sortBy cmp (a # as) = insertBy cmp a (sortBy cmp as)"
  by (simp add: sortBy_def)

lemma mset_sortBy: "mset (sortBy cmp as) = mset as"
  by (induction as) (simp_all add: sortBy_def mset_insertBy)

lemma sorted_insertBy:
  assumes trans: "\<And>a b c. cmp a b \<le> 0 \<Longrightarrow> cmp b c \<le> 0 \<Longrightarrow> cmp a c \<le> 0"
    and total: "\<And>a b. cmp a b \<le> 0 \<or> cmp b a \<le> 0"
  shows "sorted_wrt (\<lambda>a b. cmp a b \<le> 0) bs \<Longrightarrow>
         sorted_wrt (\<lambda>a b. cmp a b \<le> 0) (insertBy cmp a bs)"
proof (induction bs)
  case Nil
  then show ?case by simp
next
  case (Cons b bs)
  show ?case
  proof (cases "cmp a b \<le> 0")
    case True
    have "\<forall>c \<in> set bs. cmp a c \<le> 0"
      using Cons.prems by (auto intro: trans [OF True])
    with True Cons.prems show ?thesis by simp
  next
    case False
    with total [of a b] have "cmp b a \<le> 0" by simp
    with False Cons show ?thesis by (simp add: set_insertBy)
  qed
qed

lemma sorted_sortBy:
  assumes "\<And>a b c. cmp a b \<le> 0 \<Longrightarrow> cmp b c \<le> 0 \<Longrightarrow> cmp a c \<le> 0"
    and "\<And>a b. cmp a b \<le> 0 \<or> cmp b a \<le> 0"
  shows "sorted_wrt (\<lambda>a b. cmp a b \<le> 0) (sortBy cmp as)"
proof (induction as)
  case Nil
  show ?case by (simp add: sortBy_def)
next
  case (Cons a as)
  have "sorted_wrt (\<lambda>a b. cmp a b \<le> 0) (insertBy cmp a (sortBy cmp as))"
  proof (rule sorted_insertBy)
    show "cmp x z \<le> 0" if "cmp x y \<le> 0" "cmp y z \<le> 0" for x y z
      using that by (rule assms(1))
    show "cmp x y \<le> 0 \<or> cmp y x \<le> 0" for x y
      by (rule assms(2))
    show "sorted_wrt (\<lambda>a b. cmp a b \<le> 0) (sortBy cmp as)"
      by (rule Cons.IH)
  qed
  then show ?case by (simp add: sortBy_Cons)
qed

lemma filter_insertBy_out:
  "\<not> P a \<Longrightarrow> filter P (insertBy cmp a bs) = filter P bs"
  by (induction bs) auto

lemma filter_insertBy_in:
  assumes tie: "\<And>b. P b \<Longrightarrow> cmp a b \<le> 0" and "P a"
  shows "filter P (insertBy cmp a bs) = a # filter P bs"
  using assms by (induction bs) auto

lemma filter_sortBy_stable:
  assumes tie: "\<And>a b. P a \<Longrightarrow> P b \<Longrightarrow> cmp a b \<le> 0"
  shows "filter P (sortBy cmp as) = filter P as"
proof (induction as)
  case Nil
  show ?case by (simp add: sortBy_def)
next
  case (Cons a as)
  show ?case
  proof (cases "P a")
    case True
    have "filter P (insertBy cmp a (sortBy cmp as)) = a # filter P (sortBy cmp as)"
    proof (rule filter_insertBy_in)
      show "cmp a b \<le> 0" if "P b" for b
        using True that by (rule tie)
      show "P a" by (rule True)
    qed
    with True Cons show ?thesis by (simp add: sortBy_Cons)
  next
    case False
    with Cons show ?thesis by (simp add: sortBy_Cons filter_insertBy_out)
  qed
qed

text \<open>
  The model of \<^verbatim>\<open>sort\<close> does not depend on the sorting algorithm: for a comparator that
  is a total preorder, the sorted rearrangement that keeps tied elements in input order is
  unique, so every stable sort returns what \<open>sortBy\<close> returns.
\<close>

lemma stable_sorted_unique:
  assumes total: "\<And>a b. cmp a b \<le> 0 \<or> cmp b a \<le> 0"
  shows "mset bs = mset cs \<Longrightarrow>
     sorted_wrt (\<lambda>a b. cmp a b \<le> 0) bs \<Longrightarrow> sorted_wrt (\<lambda>a b. cmp a b \<le> 0) cs \<Longrightarrow>
     (\<And>a. filter (\<lambda>b. cmp a b \<le> 0 \<and> cmp b a \<le> 0) bs =
           filter (\<lambda>b. cmp a b \<le> 0 \<and> cmp b a \<le> 0) cs) \<Longrightarrow>
     bs = cs"
proof (induction bs arbitrary: cs)
  case Nil
  then show ?case by simp
next
  case (Cons b bs)
  from Cons.prems(1) obtain c cs' where cs: "cs = c # cs'"
    by (cases cs) auto
  have refl: "cmp a a \<le> 0" for a using total [of a a] by simp
  have "c \<in> set (b # bs)"
    using Cons.prems(1) cs by (metis list.set_intros(1) set_mset_mset)
  then have bc: "cmp b c \<le> 0"
    using Cons.prems(2) refl by auto
  have "b \<in> set (c # cs')"
    using Cons.prems(1) cs by (metis list.set_intros(1) set_mset_mset)
  then have cb: "cmp c b \<le> 0"
    using Cons.prems(3) cs refl by auto
  from Cons.prems(4) [of b] have "b = c"
    using bc cb refl by (simp add: cs)
  have tl: "filter (\<lambda>x. cmp a x \<le> 0 \<and> cmp x a \<le> 0) bs =
            filter (\<lambda>x. cmp a x \<le> 0 \<and> cmp x a \<le> 0) cs'" for a
    using Cons.prems(4) [of a] \<open>b = c\<close> by (simp add: cs split: if_splits)
  have "bs = cs'"
  proof (rule Cons.IH)
    show "mset bs = mset cs'" using Cons.prems(1) \<open>b = c\<close> by (simp add: cs)
    show "sorted_wrt (\<lambda>a b. cmp a b \<le> 0) bs" using Cons.prems(2) by simp
    show "sorted_wrt (\<lambda>a b. cmp a b \<le> 0) cs'" using Cons.prems(3) by (simp add: cs)
    show "filter (\<lambda>b. cmp a b \<le> 0 \<and> cmp b a \<le> 0) bs =
          filter (\<lambda>b. cmp a b \<le> 0 \<and> cmp b a \<le> 0) cs'" for a
      by (rule tl)
  qed
  with \<open>b = c\<close> show ?case by (simp add: cs)
qed

lemma sortBy_is_the_stable_sort:
  assumes trans: "\<And>a b c. cmp a b \<le> 0 \<Longrightarrow> cmp b c \<le> 0 \<Longrightarrow> cmp a c \<le> 0"
    and total: "\<And>a b. cmp a b \<le> 0 \<or> cmp b a \<le> 0"
    and perm: "mset bs = mset as"
    and sorted: "sorted_wrt (\<lambda>a b. cmp a b \<le> 0) bs"
    and stable: "\<And>a. filter (\<lambda>b. cmp a b \<le> 0 \<and> cmp b a \<le> 0) bs =
                     filter (\<lambda>b. cmp a b \<le> 0 \<and> cmp b a \<le> 0) as"
  shows "bs = sortBy cmp as"
proof (rule stable_sorted_unique)
  show "cmp a b \<le> 0 \<or> cmp b a \<le> 0" for a b by (rule total)
  show "mset bs = mset (sortBy cmp as)" by (simp add: perm mset_sortBy)
  show "sorted_wrt (\<lambda>a b. cmp a b \<le> 0) bs" by (rule sorted)
  show "sorted_wrt (\<lambda>a b. cmp a b \<le> 0) (sortBy cmp as)"
  proof (rule sorted_sortBy)
    show "cmp x z \<le> 0" if "cmp x y \<le> 0" "cmp y z \<le> 0" for x y z
      using that by (rule trans)
    show "cmp x y \<le> 0 \<or> cmp y x \<le> 0" for x y by (rule total)
  qed
  show "filter (\<lambda>b. cmp a b \<le> 0 \<and> cmp b a \<le> 0) bs =
        filter (\<lambda>b. cmp a b \<le> 0 \<and> cmp b a \<le> 0) (sortBy cmp as)" for a
  proof -
    have "filter (\<lambda>b. cmp a b \<le> 0 \<and> cmp b a \<le> 0) (sortBy cmp as) =
          filter (\<lambda>b. cmp a b \<le> 0 \<and> cmp b a \<le> 0) as"
    proof (rule filter_sortBy_stable)
      fix x y
      assume "cmp a x \<le> 0 \<and> cmp x a \<le> 0" "cmp a y \<le> 0 \<and> cmp y a \<le> 0"
      then show "cmp x y \<le> 0" using trans [of x a y] by simp
    qed
    then show ?thesis by (simp add: stable)
  qed
qed

lemma compareNotes_le_iff:
  "compareNotes a b \<le> 0 \<longleftrightarrow>
     (isPinned a \<and> \<not> isPinned b) \<or> (isPinned a = isPinned b \<and> updatedAt b \<le> updatedAt a)"
  by (auto simp: compareNotes_def)

lemma compareNotes_trans:
  "compareNotes a b \<le> 0 \<Longrightarrow> compareNotes b c \<le> 0 \<Longrightarrow> compareNotes a c \<le> 0"
  unfolding compareNotes_le_iff by auto

lemma compareNotes_total: "compareNotes a b \<le> 0 \<or> compareNotes b a \<le> 0"
  unfolding compareNotes_le_iff by auto

lemma sorted_sortedNotes: "sorted_wrt (\<lambda>a b. compareNotes a b \<le> 0) (sortedNotes ns)"
  unfolding sortedNotes_def
proof (rule sorted_sortBy)
  show "compareNotes a c \<le> 0" if "compareNotes a b \<le> 0" "compareNotes b c \<le> 0" for a b c
    using that by (rule compareNotes_trans)
  show "compareNotes a b \<le> 0 \<or> compareNotes b a \<le> 0" for a b
    by (rule compareNotes_total)
qed

text \<open>
  Claim C3. The sorted list is a rearrangement of the input. Of two notes in the sorted
  list, the later one is pinned only if the earlier one is, so every pinned note stands
  before every unpinned one; when both have the same pin state, the earlier one has the
  greater or equal \<^verbatim>\<open>updatedAt\<close>. The notes that share a pin state and an \<^verbatim>\<open>updatedAt\<close>
  stand in the sorted list in the order they had in the input; this holds in particular
  among the pinned notes.
\<close>

theorem sortedNotes_pinned_recent_stable:
  "mset (sortedNotes ns) = mset ns \<and>
   (\<forall>i j. i < j \<and> j < length (sortedNotes ns) \<longrightarrow>
      (isPinned (sortedNotes ns ! j) \<longrightarrow> isPinned (sortedNotes ns ! i)) \<and>
      (isPinned (sortedNotes ns ! i) = isPinned (sortedNotes ns ! j) \<longrightarrow>
         updatedAt (sortedNotes ns ! j) \<le> updatedAt (sortedNotes ns ! i))) \<and>
   (\<forall>p u. filter (\<lambda>n. isPinned n = p \<and> updatedAt n = u) (sortedNotes ns) =
          filter (\<lambda>n. isPinned n = p \<and> updatedAt n = u) ns)"
proof (intro conjI allI impI)
  show "mset (sortedNotes ns) = mset ns"
    by (simp add: sortedNotes_def mset_sortBy)
next
  fix i j
  assume ij: "i < j \<and> j < length (sortedNotes ns)"
  with sorted_sortedNotes [of ns]
  have c: "compareNotes (sortedNotes ns ! i) (sortedNotes ns ! j) \<le> 0"
    by (simp add: sorted_wrt_iff_nth_less)
  from c show "isPinned (sortedNotes ns ! i)" if "isPinned (sortedNotes ns ! j)"
    using that by (auto simp: compareNotes_le_iff)
  from c show "updatedAt (sortedNotes ns ! j) \<le> updatedAt (sortedNotes ns ! i)"
    if "isPinned (sortedNotes ns ! i) = isPinned (sortedNotes ns ! j)"
    using that by (auto simp: compareNotes_le_iff)
next
  fix p u
  show "filter (\<lambda>n. isPinned n = p \<and> updatedAt n = u) (sortedNotes ns) =
        filter (\<lambda>n. isPinned n = p \<and> updatedAt n = u) ns"
    unfolding sortedNotes_def
    by (rule filter_sortBy_stable) (simp add: compareNotes_def)
qed

theorem sortedNotes_pinned_recent_stable_witness:
  "sortedNotes [sampleNote ''1'' ''a'' 5 False, sampleNote ''2'' ''b'' 3 True,
                sampleNote ''3'' ''c'' 5 False, sampleNote ''4'' ''d'' 9 False]
     = [sampleNote ''2'' ''b'' 3 True, sampleNote ''4'' ''d'' 9 False,
        sampleNote ''1'' ''a'' 5 False, sampleNote ''3'' ''c'' 5 False] \<and>
   updatedAt (sortedNotes [sampleNote ''1'' ''a'' 5 False, sampleNote ''2'' ''b'' 3 True,
                sampleNote ''3'' ''c'' 5 False, sampleNote ''4'' ''d'' 9 False] ! 2)
     \<le> updatedAt (sortedNotes [sampleNote ''1'' ''a'' 5 False, sampleNote ''2'' ''b'' 3 True,
                sampleNote ''3'' ''c'' 5 False, sampleNote ''4'' ''d'' 9 False] ! 1)"
proof -
  let ?ns = "[sampleNote ''1'' ''a'' 5 False, sampleNote ''2'' ''b'' 3 True,
              sampleNote ''3'' ''c'' 5 False, sampleNote ''4'' ''d'' 9 False]"
  have e: "sortedNotes ?ns = [sampleNote ''2'' ''b'' 3 True, sampleNote ''4'' ''d'' 9 False,
        sampleNote ''1'' ''a'' 5 False, sampleNote ''3'' ''c'' 5 False]"
    by (simp add: sortedNotes_def sortBy_def compareNotes_def sampleNote_def)
  have h: "(1::nat) < 2 \<and> 2 < length (sortedNotes ?ns)"
    by (simp add: e)
  have p: "isPinned (sortedNotes ?ns ! 1) = isPinned (sortedNotes ?ns ! 2)"
    unfolding e by (simp add: sampleNote_def)
  from sortedNotes_pinned_recent_stable [of ?ns] h p
  have "updatedAt (sortedNotes ?ns ! 2) \<le> updatedAt (sortedNotes ?ns ! 1)"
    by blast
  with e show ?thesis by blast
qed

section \<open>Rendering in list order\<close>

lemma composite_transparent: "composite op transparent d = d"
  by (cases op) (simp_all add: composite_def transparent_def)

lemma composite_opaque: "alpha s = 1 \<Longrightarrow> composite SourceOver s d = s"
  by (simp add: composite_def)

lemma renderCanvas_append:
  "renderCanvas raster ctx (ps @ qs) = foldl (renderPath raster) (renderCanvas raster ctx ps) qs"
  by (simp add: renderCanvas_def)

lemma foldl_renderPath_skip:
  "foldl (renderPath raster) ctx (filter (\<lambda>p. 2 \<le> length (points p)) ps) =
   foldl (renderPath raster) ctx ps"
  by (induction ps arbitrary: ctx) (auto simp: renderPath_def)

lemma renderPath_caps:
  "lineCap (fst (renderPath raster ctx path)) = lineCap (fst ctx) \<and>
   lineJoin (fst (renderPath raster ctx path)) = lineJoin (fst ctx)"
  by (simp add: renderPath_def stroke_def Let_def)

lemma foldl_renderPath_caps:
  "lineCap (fst (foldl (renderPath raster) ctx ps)) = lineCap (fst ctx) \<and>
   lineJoin (fst (foldl (renderPath raster) ctx ps)) = lineJoin (fst ctx)"
  by (induction ps arbitrary: ctx) (simp_all add: renderPath_caps)

lemma renderCanvas_caps:
  "lineCap (fst (renderCanvas raster ctx ps)) = ''round'' \<and>
   lineJoin (fst (renderCanvas raster ctx ps)) = ''round''"
  by (simp add: renderCanvas_def foldl_renderPath_caps)

lemma renderPath_untouched:
  "untouched raster path p \<Longrightarrow> snd (renderPath raster ctx path) p = snd ctx p"
  by (simp add: renderPath_def stroke_def Let_def untouched_def composite_transparent)

lemma foldl_renderPath_untouched:
  "\<forall>q \<in> set qs. untouched raster q p \<Longrightarrow>
   snd (foldl (renderPath raster) ctx qs) p = snd ctx p"
  by (induction qs arbitrary: ctx) (simp_all add: renderPath_untouched)

lemma renderPath_pen:
  assumes "color c \<noteq> ''eraser''" "2 \<le> length (points c)"
    "lineCap (fst ctx) = ''round''" "lineJoin (fst ctx) = ''round''"
  shows "snd (renderPath raster ctx c) p =
           composite SourceOver (raster (penSettings c) (points c) p) (snd ctx p)"
proof -
  have "(fst ctx)\<lparr>globalCompositeOperation := SourceOver, strokeStyle := color c,
          shadowBlur := Finite 8, shadowColor := color c, lineWidth := path_width c\<rparr>
        = penSettings c"
    using assms(3,4) by (simp add: penSettings_def)
  with assms(1,2) show ?thesis
    by (simp add: renderPath_def stroke_def Let_def)
qed

lemma renderPath_eraser:
  assumes "color e = ''eraser''" "2 \<le> length (points e)"
  shows "\<exists>g. globalCompositeOperation g = DestinationOut \<and>
             lineWidth g = times4 (path_width e) \<and>
             snd (renderPath raster ctx e) p =
               composite DestinationOut (raster g (points e) p) (snd ctx p)"
  using assms
  by (intro exI [of _ "(fst ctx)\<lparr>globalCompositeOperation := DestinationOut,
        lineWidth := times4 (path_width e)\<rparr>"])
     (simp add: renderPath_def stroke_def Let_def)

text \<open>
  Claim C7. The renderer clears the bitmap and replays the paths as a left fold in list
  order: rendering \<open>ps @ qs\<close> is rendering \<open>ps\<close> and then the paths of \<open>qs\<close> on the
  result, and paths with fewer than two points change nothing. Let \<open>c\<close> be a path with at
  least two points, followed only by paths that leave the pixel \<open>p\<close> alone. If \<open>c\<close> is a
  pen path, the pixel is the source image of \<open>c\<close>, rasterised under settings that depend
  on \<open>c\<close> alone, composited with \<^verbatim>\<open>source-over\<close> onto the rendering of the paths before
  \<open>c\<close>; where that image is opaque the pixel is the image's pixel, whatever the earlier
  paths, erasers included, painted or removed. If \<open>c\<close> is an eraser path, the pixel is the
  rendering of the paths before \<open>c\<close> with the eraser's image, four times the path's
  width, composited with \<^verbatim>\<open>destination-out\<close>: the eraser reduces only what the earlier
  paths painted.
\<close>

theorem renderCanvas_in_list_order:
  "renderCanvas raster ctx (ps @ qs) = foldl (renderPath raster) (renderCanvas raster ctx ps) qs \<and>
   renderCanvas raster ctx (filter (\<lambda>q. 2 \<le> length (points q)) ps) = renderCanvas raster ctx ps \<and>
   (2 \<le> length (points c) \<and> (\<forall>q \<in> set qs. untouched raster q p) \<longrightarrow>
      (color c \<noteq> ''eraser'' \<longrightarrow>
         snd (renderCanvas raster ctx (ps @ c # qs)) p =
           composite SourceOver (raster (penSettings c) (points c) p)
             (snd (renderCanvas raster ctx ps) p) \<and>
         (alpha (raster (penSettings c) (points c) p) = 1 \<longrightarrow>
            snd (renderCanvas raster ctx (ps @ c # qs)) p = raster (penSettings c) (points c) p)) \<and>
      (color c = ''eraser'' \<longrightarrow>
         (\<exists>g. globalCompositeOperation g = DestinationOut \<and>
              lineWidth g = times4 (path_width c) \<and>
              snd (renderCanvas raster ctx (ps @ c # qs)) p =
                composite DestinationOut (raster g (points c) p)
                  (snd (renderCanvas raster ctx ps) p))))"
proof (intro conjI impI)
  show "renderCanvas raster ctx (ps @ qs) =
        foldl (renderPath raster) (renderCanvas raster ctx ps) qs"
    by (rule renderCanvas_append)
  show "renderCanvas raster ctx (filter (\<lambda>q. 2 \<le> length (points q)) ps) =
        renderCanvas raster ctx ps"
    by (simp add: renderCanvas_def foldl_renderPath_skip)
next
  assume a: "2 \<le> length (points c) \<and> (\<forall>q \<in> set qs. untouched raster q p)"
  let ?below = "renderCanvas raster ctx ps"
  have later: "snd (renderCanvas raster ctx (ps @ c # qs)) p = snd (renderPath raster ?below c) p"
    using a by (simp add: renderCanvas_append foldl_renderPath_untouched)
  {
    assume pen: "color c \<noteq> ''eraser''"
    show over: "snd (renderCanvas raster ctx (ps @ c # qs)) p =
        composite SourceOver (raster (penSettings c) (points c) p) (snd ?below p)"
      using a pen by (simp add: later renderPath_pen renderCanvas_caps)
    assume "alpha (raster (penSettings c) (points c) p) = 1"
    then show "snd (renderCanvas raster ctx (ps @ c # qs)) p = raster (penSettings c) (points c) p"
      by (simp add: over composite_opaque)
  }
  {
    assume "color c = ''eraser''"
    with a renderPath_eraser [of c raster ?below p]
    show "\<exists>g. globalCompositeOperation g = DestinationOut \<and>
              lineWidth g = times4 (path_width c) \<and>
              snd (renderCanvas raster ctx (ps @ c # qs)) p =
                composite DestinationOut (raster g (points c) p) (snd ?below p)"
      by (simp add: later)
  }
qed

theorem renderCanvas_in_list_order_witness:
  "snd (renderCanvas sampleRaster sampleContext
      [samplePath ''#22d3ee'' [(1, 1), (2, 2)],
       samplePath ''eraser'' [(1, 1), (2, 2), (3, 3)],
       samplePath ''#ffffff'' [(2, 2), (3, 3)]]) (2, 2)
     = \<lparr>red = 1, green = 1, blue = 1, alpha = 1\<rparr> \<and>
   snd (renderCanvas sampleRaster sampleContext
      [samplePath ''#22d3ee'' [(1, 1), (2, 2)],
       samplePath ''eraser'' [(1, 1), (2, 2), (3, 3)],
       samplePath ''#ffffff'' [(2, 2), (3, 3)]]) (1, 1)
     = transparent"
proof -
  let ?A = "samplePath ''#22d3ee'' [(1, 1), (2, 2)]"
  let ?B = "samplePath ''eraser'' [(1, 1), (2, 2), (3, 3)]"
  let ?C = "samplePath ''#ffffff'' [(2, 2), (3, 3)]"
  have c1: "2 \<le> length (points ?C) \<and> (\<forall>q \<in> set []. untouched sampleRaster q (2, 2))"
    by (simp add: samplePath_def)
  have c2: "color ?C \<noteq> ''eraser''"
    by (simp add: samplePath_def)
  have c3: "sampleRaster (penSettings ?C) (points ?C) (2, 2) = \<lparr>red = 1, green = 1, blue = 1, alpha = 1\<rparr>"
    by (simp add: sampleRaster_def penSettings_def samplePath_def pixelOf_def)
  from renderCanvas_in_list_order
    [where raster = sampleRaster and ctx = sampleContext and ps = "[?A, ?B]" and c = ?C
       and qs = "[]" and p = "(2, 2)"] c1 c2 c3
  have 1: "snd (renderCanvas sampleRaster sampleContext ([?A, ?B] @ ?C # [])) (2, 2) =
      \<lparr>red = 1, green = 1, blue = 1, alpha = 1\<rparr>"
    by (simp add: composite_def)
  have b1: "2 \<le> length (points ?B) \<and> (\<forall>q \<in> set [?C]. untouched sampleRaster q (1, 1))"
    by (simp add: samplePath_def untouched_def sampleRaster_def pixelOf_def)
  have b2: "color ?B = ''eraser''"
    by (simp add: samplePath_def)
  from renderCanvas_in_list_order
    [where raster = sampleRaster and ctx = sampleContext and ps = "[?A]" and c = ?B
       and qs = "[?C]" and p = "(1, 1)"] b1 b2
  obtain g where "snd (renderCanvas sampleRaster sampleContext ([?A] @ ?B # [?C])) (1, 1) =
      composite DestinationOut (sampleRaster g (points ?B) (1, 1))
        (snd (renderCanvas sampleRaster sampleContext [?A]) (1, 1))"
    by blast
  moreover have "alpha (sampleRaster g (points ?B) (1, 1)) = 1"
    by (simp add: sampleRaster_def samplePath_def pixelOf_def)
  ultimately have 2: "snd (renderCanvas sampleRaster sampleContext ([?A] @ ?B # [?C])) (1, 1) =
      transparent"
    by (simp add: composite_def transparent_def)
  from 1 2 show ?thesis by simp
qed

section \<open>Round trip through the JSON document\<close>

lemma asNumber_numberJson:
  "asNumber (numberJson n) = (if finite_number n then Some n else None)"
  by (cases n) simp_all

lemma those_map_roundtrip:
  "(\<And>a. a \<in> set as \<Longrightarrow> f (g a) = (if v a then Some a else None)) \<Longrightarrow>
   those (map (\<lambda>a. f (g a)) as) = (if list_all v as then Some as else None)"
  by (induction as) (auto split: option.splits)

lemma those_map_comp:
  "(\<And>a. f (g a) = (if v a then Some a else None)) \<Longrightarrow>
   those (map (f \<circ> g) as) = (if list_all v as then Some as else None)"
  using those_map_roundtrip [of as f g v] by (simp add: comp_def)

lemma asPoint_pointJson:
  "asPoint (pointJson p) = (if validPoint p then Some p else None)"
  by (simp add: pointJson_def required_def member_def asNumber_numberJson validPoint_def)

lemmas those_points = those_map_comp [of asPoint pointJson validPoint, OF asPoint_pointJson]

lemma asPath_pathJson:
  "asPath (pathJson d) = (if validPath d then Some d else None)"
  by (simp add: pathJson_def required_def member_def asNumber_numberJson validPath_def
      those_points)

lemmas those_paths = those_map_comp [of asPath pathJson validPath, OF asPath_pathJson]

lemma asBlockType_blockTypeJson: "asBlockType (blockTypeJson t) = Some t"
  by (cases t) simp_all

lemma asTheme_themeJson: "asTheme (themeJson t) = Some t"
  by (cases t) simp_all

lemma asBlock_blockJson:
  "asBlock (blockJson b) = (if validBlock b then Some b else None)"
  by (cases "width b"; cases "height b"; cases "drawings b")
     (simp_all add: blockJson_def required_def optional_def optionalMember_def member_def
        asNumber_numberJson validBlock_def those_paths asBlockType_blockTypeJson
        del: asBlockType.simps)

lemmas those_blocks = those_map_comp [of asBlock blockJson validBlock, OF asBlock_blockJson]

lemma asNote_noteJson:
  "asNote (noteJson n) = (if validNote n then Some n else None)"
  by (cases "isHidden n"; cases "theme n")
     (simp_all add: noteJson_def required_def optional_def optionalMember_def member_def
        validNote_def those_blocks asTheme_themeJson del: asTheme.simps)

lemmas those_notes = those_map_comp [of asNote noteJson validNote, OF asNote_noteJson]

lemma parseNotes_stringifyNotes:
  "parseNotes (stringifyNotes ns) = (if list_all validNote ns then Some ns else None)"
  by (simp add: parseNotes_def stringifyNotes_def those_notes)

lemma example_json:
  "stringifyNotes [sampleNote ''n2'' ''x'' 5 True] =
     JArray [JObject [(''id'', JString ''n2''), (''title'', JString ''x''),
       (''createdAt'', JNumber 1), (''updatedAt'', JNumber 5),
       (''blocks'', JArray [JObject [(''id'', JString ''b''), (''type'', JString ''text''),
          (''content'', JString ''x''), (''drawings'', JArray [])]]),
       (''isPinned'', JBool True), (''theme'', JString ''dark'')]]"
  by (simp add: stringifyNotes_def noteJson_def blockJson_def optionalMember_def
      sampleNote_def textBlock_def)

text \<open>
  Claim C1. For a collection in which every number is finite, reading back the JSON value
  written for it gives the collection itself, every field of every note, block, path and
  point included; so does the load effect after the save effect, when the write reached
  the store that the load reads first (always on the web; on a native platform when the
  file write succeeded). The empty collection is read back as the empty collection.
\<close>

theorem persist_load_roundtrip:
  "(list_all validNote ns \<longrightarrow>
      parseNotes (stringifyNotes ns) = Some ns \<and>
      ((isNative \<longrightarrow> writeOk) \<longrightarrow>
         loadData isNative (persistData isNative writeOk ns st) = Some ns)) \<and>
   parseNotes (stringifyNotes []) = Some [] \<and>
   loadData isNative (persistData isNative True [] st) = Some []"
  by (simp add: parseNotes_stringifyNotes loadData_def persistData_def Let_def)

theorem persist_load_roundtrip_witness:
  "loadData True (persistData True True [sampleDrawnNote, sampleNote ''n2'' ''x'' 5 True]
      \<lparr>fileData = None, localData = Some (OtherText ''{'')\<rparr>)
     = Some [sampleDrawnNote, sampleNote ''n2'' ''x'' 5 True] \<and>
   loadData False (persistData False False [sampleDrawnNote]
      \<lparr>fileData = None, localData = None\<rparr>)
     = Some [sampleDrawnNote]"
proof -
  have v: "list_all validNote [sampleDrawnNote, sampleNote ''n2'' ''x'' 5 True]"
    "list_all validNote [sampleDrawnNote]"
    by (simp_all add: validNote_def validBlock_def validPath_def validPoint_def
        sampleDrawnNote_def sampleNote_def textBlock_def samplePath_def)
  from persist_load_roundtrip
    [of "[sampleDrawnNote, sampleNote ''n2'' ''x'' 5 True]" True True
      "\<lparr>fileData = None, localData = Some (OtherText ''{'')\<rparr>"] v(1)
  have 1: "loadData True (persistData True True [sampleDrawnNote, sampleNote ''n2'' ''x'' 5 True]
      \<lparr>fileData = None, localData = Some (OtherText ''{'')\<rparr>)
     = Some [sampleDrawnNote, sampleNote ''n2'' ''x'' 5 True]"
    by blast
  from persist_load_roundtrip
    [of "[sampleDrawnNote]" False False "\<lparr>fileData = None, localData = None\<rparr>"] v(2)
  have 2: "loadData False (persistData False False [sampleDrawnNote]
      \<lparr>fileData = None, localData = None\<rparr>) = Some [sampleDrawnNote]"
    by blast
  from 1 2 show ?thesis by blast
qed

end
